theory Spec2Isabelle
  imports Complex_Main
begin

section \<open>JavaScript primitives used by the resolver\<close>

text \<open>
  The resolver builds its group keys with template literals
  (\<^verbatim>\<open>`${major}.${minor}`\<close>), takes them apart again with
  \<^verbatim>\<open>key.split('.')\<close> and reads the components back with
  \<^verbatim>\<open>parseInt(s, 10)\<close>. The three primitives are modelled on
  \<open>string\<close> (a list of bytes). Version components are integers (the
  data model of the versioning capability); a component that the scheme
  reports as \<^verbatim>\<open>null\<close> is \<open>None\<close>.
\<close>

definition digit_char :: "nat \<Rightarrow> char" where
  "digit_char d = char_of (48 + d)"

fun digits_of :: "nat \<Rightarrow> string" where
  "digits_of n = (if n < 10 then [digit_char n] else digits_of (n div 10) @ [digit_char (n mod 10)])"

declare digits_of.simps [simp del]

text \<open>
  \<^verbatim>\<open>`${n}`\<close> for an integer \<open>n\<close>. Below \<open>10^21\<close> JavaScript
  writes the decimal digits; from \<open>10^21\<close> on it writes the exponent
  form: the first digit, the further digits after a point (none when they
  are all zero), then \<^verbatim>\<open>e+\<close> and the exponent, as in
  \<^verbatim>\<open>1e+21\<close> and \<^verbatim>\<open>1.5e+21\<close>. The digits written are the shortest
  that read back to the same number; for an integer with at most 15
  significant digits they are its own digits without the trailing zeros,
  which is what \<open>show_exponent\<close> writes.
\<close>

definition strip_trailing_zeros :: "string \<Rightarrow> string" where
  "strip_trailing_zeros s = rev (dropWhile (\<lambda>c. c = CHR ''0'') (rev s))"

definition show_exponent :: "nat \<Rightarrow> string" where
  "show_exponent n =
     (let ds = digits_of n; frac = strip_trailing_zeros (tl ds)
      in hd ds # (if frac = [] then [] else CHR ''.'' # frac) @ ''e+'' @ digits_of (length ds - 1))"

definition show_nat :: "nat \<Rightarrow> string" where
  "show_nat n = (if n < 10 ^ 21 then digits_of n else show_exponent n)"

definition show_int :: "int \<Rightarrow> string" where
  "show_int n = (if n < 0 then CHR ''-'' # show_nat (nat (- n)) else show_nat (nat n))"

text \<open>\<^verbatim>\<open>`${x}`\<close> for \<^verbatim>\<open>x: number | null\<close>.\<close>

definition show_num :: "int option \<Rightarrow> string" where
  "show_num x = (case x of None \<Rightarrow> ''null'' | Some n \<Rightarrow> show_int n)"

definition is_digit :: "char \<Rightarrow> bool" where
  "is_digit c = (48 \<le> (of_char c :: nat) \<and> (of_char c :: nat) \<le> 57)"

text \<open>The ASCII members of JavaScript's white space and line terminators.\<close>

definition is_space :: "char \<Rightarrow> bool" where
  "is_space c = ((of_char c :: nat) \<in> {9, 10, 11, 12, 13, 32})"

fun digits_val :: "nat \<Rightarrow> string \<Rightarrow> nat" where
  "digits_val acc [] = acc"
| "digits_val acc (c # cs) = digits_val (10 * acc + (of_char c - 48)) cs"

text \<open>
  \<^verbatim>\<open>parseInt(s, 10)\<close>: leading white space is skipped, one sign is
  read, then the longest run of decimal digits; with no digit the result is
  \<^verbatim>\<open>NaN\<close>, here \<open>None\<close>.
\<close>

definition parseInt :: "string \<Rightarrow> int option" where
  "parseInt s =
     (let t = dropWhile is_space s;
          neg = (case t of [] \<Rightarrow> False | c # _ \<Rightarrow> c = CHR ''-'');
          u = (case t of [] \<Rightarrow> [] | c # r \<Rightarrow> if c = CHR ''-'' \<or> c = CHR ''+'' then r else t);
          ds = takeWhile is_digit u
      in if ds = [] then None
         else Some (if neg then - int (digits_val 0 ds) else int (digits_val 0 ds)))"

text \<open>
  \<^verbatim>\<open>parseInt(x, 10)\<close> for a destructured component that may be
  \<^verbatim>\<open>undefined\<close>: the argument is converted to the string
  \<^verbatim>\<open>"undefined"\<close> first.
\<close>

definition parseInt_opt :: "string option \<Rightarrow> int option" where
  "parseInt_opt x = (case x of None \<Rightarrow> parseInt ''undefined'' | Some s \<Rightarrow> parseInt s)"

text \<open>\<^verbatim>\<open>s.split(c)\<close> for a one-character separator: never empty.\<close>

fun split_on :: "char \<Rightarrow> string \<Rightarrow> string list" where
  "split_on c [] = [[]]"
| "split_on c (x # xs) =
     (if x = c then [] # split_on c xs
      else (case split_on c xs of [] \<Rightarrow> [[x]] | w # ws \<Rightarrow> (x # w) # ws))"

text \<open>
  \<^verbatim>\<open>a === b\<close> between the result of \<^verbatim>\<open>parseInt\<close> (a number or
  \<^verbatim>\<open>NaN\<close>) and a \<^verbatim>\<open>number | null\<close>: \<^verbatim>\<open>NaN\<close> equals nothing,
  and a number never equals \<^verbatim>\<open>null\<close>.
\<close>

definition strict_eq_num :: "int option \<Rightarrow> int option \<Rightarrow> bool" where
  "strict_eq_num parsed x = (case parsed of None \<Rightarrow> False | Some n \<Rightarrow> x = Some n)"

text \<open>
  \<^verbatim>\<open>xs.sort(cmp)\<close>: a stable ascending sort by a comparator that
  returns a negative, zero or positive number. The language fixes the result
  for a consistent comparator (a stable sort has one answer); for that case
  the insertion sort below computes it.
\<close>

fun insort_cmp :: "('a \<Rightarrow> 'a \<Rightarrow> int) \<Rightarrow> 'a \<Rightarrow> 'a list \<Rightarrow> 'a list" where
  "insort_cmp cmp x [] = [x]"
| "insort_cmp cmp x (y # ys) = (if cmp x y \<le> 0 then x # y # ys else y # insort_cmp cmp x ys)"

definition sort_cmp :: "('a \<Rightarrow> 'a \<Rightarrow> int) \<Rightarrow> 'a list \<Rightarrow> 'a list" where
  "sort_cmp cmp xs = foldr (insort_cmp cmp) xs []"

text \<open>
  A consistent comparator: any two elements are comparable and the order is
  transitive (a total preorder, as the comparator of a versioning scheme is
  meant to be).
\<close>

definition consistent_comparator :: "('a \<Rightarrow> 'a \<Rightarrow> int) \<Rightarrow> bool" where
  "consistent_comparator cmp =
     ((\<forall>a b. cmp a b \<le> 0 \<or> cmp b a \<le> 0) \<and>
      (\<forall>a b c. cmp a b \<le> 0 \<and> cmp b c \<le> 0 \<longrightarrow> cmp a c \<le> 0))"

text \<open>
  The same sort with a comparator that may throw (\<open>thr a b\<close> says that
  the call on \<open>a\<close> and \<open>b\<close> throws): the exception of the first
  failing call ends the sort, here with \<open>None\<close>. Which pairs an engine
  compares is left to it; the pairs compared here are those of the
  insertion sort, and an array of one element is never compared.
\<close>

fun insort_try :: "('a \<Rightarrow> 'a \<Rightarrow> bool) \<Rightarrow> ('a \<Rightarrow> 'a \<Rightarrow> int) \<Rightarrow> 'a \<Rightarrow> 'a list \<Rightarrow> 'a list option" where
  "insort_try thr cmp x [] = Some [x]"
| "insort_try thr cmp x (y # ys) =
     (if thr x y then None
      else if cmp x y \<le> 0 then Some (x # y # ys)
      else (case insort_try thr cmp x ys of None \<Rightarrow> None | Some zs \<Rightarrow> Some (y # zs)))"

fun sort_try :: "('a \<Rightarrow> 'a \<Rightarrow> bool) \<Rightarrow> ('a \<Rightarrow> 'a \<Rightarrow> int) \<Rightarrow> 'a list \<Rightarrow> 'a list option" where
  "sort_try thr cmp [] = Some []"
| "sort_try thr cmp (x # xs) =
     (case sort_try thr cmp xs of None \<Rightarrow> None | Some ys \<Rightarrow> insort_try thr cmp x ys)"

text \<open>
  \<^verbatim>\<open>xs[i]\<close> for a number \<open>i\<close>: \<^verbatim>\<open>undefined\<close> (here \<open>None\<close>)
  outside the array and for an index that is not an integer.
\<close>

definition js_index :: "'a list \<Rightarrow> rat \<Rightarrow> 'a option" where
  "js_index xs i =
     (if of_int \<lfloor>i\<rfloor> = i \<and> 0 \<le> i \<and> i < of_nat (length xs) then Some (xs ! nat \<lfloor>i\<rfloor>) else None)"

section \<open>Data model\<close>

text \<open>
  A release as the registry reports it. The version may be absent or not a
  string (\<^verbatim>\<open>null\<close>, \<^verbatim>\<open>undefined\<close>, a number): all of these are
  \<open>None\<close>, since the filter rejects them alike.
\<close>

record release =
  version :: "string option"
  releaseTimestamp :: "string option"

text \<open>
  \<^verbatim>\<open>ReleaseResult | null\<close>: the result itself may be \<^verbatim>\<open>null\<close> and its
  \<^verbatim>\<open>releases\<close> may be \<^verbatim>\<open>undefined\<close>.
\<close>

record release_result =
  releases :: "release list option"

text \<open>
  The constraints of a configuration, as \<^verbatim>\<open>getNewValue\<close> receives them:
  the offset is a \<^verbatim>\<open>number\<close>, here a rational (a configuration is JSON,
  which has no \<^verbatim>\<open>NaN\<close> and no infinity), and the level is any string;
  the resolver checks the sign of the one and the value of the other itself.
\<close>

record constraints =
  allowedVersions :: "string option"
  offset :: "rat option"
  offsetLevel :: "string option"
  ignorePrerelease :: "bool option"

record config =
  datasource :: "string option"
  packageName :: "string option"
  versioning :: "string"
  constraints :: "constraints option"

text \<open>
  The versioning capability (\<^verbatim>\<open>VersioningApi\<close>), consumed and not
  implemented here: it is a parameter of every function below. Any of its
  operations may throw. The resolver guards \<^verbatim>\<open>isValid\<close> with
  \<^verbatim>\<open>try/catch\<close>: that call is \<open>None\<close> when it throws. Nothing guards
  the other operations: \<open>throws api c\<close> says that the call \<open>c\<close> throws,
  and when it does not, the call returns the value of the field of its name.
\<close>

datatype scheme_call =
    IsVersion string
  | IsStable string
  | SortVersions string string
  | GetMajor string
  | GetMinor string
  | GetPatch string

record versioning_api =
  isValid :: "string \<Rightarrow> bool option"
  isVersion :: "string \<Rightarrow> bool"
  isStable :: "string \<Rightarrow> bool"
  sortVersions :: "string \<Rightarrow> string \<Rightarrow> int"
  getMajor :: "string \<Rightarrow> int option"
  getMinor :: "string \<Rightarrow> int option"
  getPatch :: "string \<Rightarrow> int option"
  throws :: "scheme_call \<Rightarrow> bool"

text \<open>
  What can reach the caller of \<^verbatim>\<open>getNewValue\<close> instead of a string: the
  error of \<^verbatim>\<open>get\<close>, an exception of a scheme operation, a
  \<^verbatim>\<open>TypeError\<close> of the runtime, or a returned \<^verbatim>\<open>undefined\<close>.
\<close>

datatype failure = VersioningNotAvailable string | SchemeError | TypeError | NotAString

text \<open>
  An error object as \<^verbatim>\<open>isRetryableError\<close> reads it; every property may
  be missing.
\<close>

record js_error =
  err_code :: "string option"
  err_statusCode :: "int option"
  err_name :: "string option"
  err_message :: "string option"
  err_type :: "string option"

text \<open>
  \<^verbatim>\<open>Record<string, string[]>\<close>: the groups object, as the list of its
  own properties in insertion order.
\<close>

type_synonym groups = "(string \<times> string list) list"

section \<open>Versioning scheme lookup\<close>

text \<open>
  Modelled from the spec: the schema \<^verbatim>\<open>Versioning\<close> and the map
  \<^verbatim>\<open>versionings\<close> behind \<^verbatim>\<open>get\<close> are not part of the sources. The
  scheme is selected by its string id from the registered schemes; an id
  that is not registered is the one hard failure.
\<close>

definition defaultVersioning_id :: string where
  "defaultVersioning_id = ''semver-coerced''"

text \<open>
  Modelled from the spec: \<^verbatim>\<open>Versioning.safeParse\<close> inside \<^verbatim>\<open>get\<close> is the
  lookup of the id among the registered schemes; \<^verbatim>\<open>get\<close> throws the
  error of a failed parse.
\<close>

definition get :: "(string \<rightharpoonup> versioning_api) \<Rightarrow> string option \<Rightarrow> failure + versioning_api" where
  "get versionings v =
     (let name = (case v of None \<Rightarrow> defaultVersioning_id | Some s \<Rightarrow> s)
      in case versionings name of
           None \<Rightarrow> Inl (VersioningNotAvailable name)
         | Some api \<Rightarrow> Inr api)"

section \<open>Grouping by semantic level\<close>

text \<open>
  \<^verbatim>\<open>if (!groups[k]) groups[k] = []; groups[k].push(v)\<close>. The keys are
  renderings of numbers joined by dots, so none of them names a property
  inherited from \<^verbatim>\<open>Object.prototype\<close>.
\<close>

fun push_group :: "string \<Rightarrow> string \<Rightarrow> groups \<Rightarrow> groups" where
  "push_group k v [] = [(k, [v])]"
| "push_group k v ((k', ms) # g) =
     (if k' = k then (k', ms @ [v]) # g else (k', ms) # push_group k v g)"

text \<open>
  The key of one version, with the calls in the order of the source:
  \<^verbatim>\<open>getMajor\<close> always, \<^verbatim>\<open>getMinor\<close> below level \<open>major\<close>,
  \<^verbatim>\<open>getPatch\<close> at level \<open>patch\<close>. \<open>Inr None\<close> is the
  \<^verbatim>\<open>continue\<close> for a level that is none of the three.
\<close>

definition groupKey :: "versioning_api \<Rightarrow> string \<Rightarrow> string \<Rightarrow> failure + string option" where
  "groupKey api level v =
     (if throws api (GetMajor v) then Inl SchemeError
      else if level = ''major'' then Inr (Some (show_num (getMajor api v)))
      else if throws api (GetMinor v) then Inl SchemeError
      else if level = ''minor'' then
        Inr (Some (show_num (getMajor api v) @ ''.'' @ show_num (getMinor api v)))
      else if level = ''patch'' then
        (if throws api (GetPatch v) then Inl SchemeError
         else Inr (Some (show_num (getMajor api v) @ ''.'' @ show_num (getMinor api v) @ ''.'' @
                         show_num (getPatch api v))))
      else Inr None)"

fun group_loop :: "versioning_api \<Rightarrow> string \<Rightarrow> string list \<Rightarrow> groups \<Rightarrow> failure + groups" where
  "group_loop api level [] g = Inr g"
| "group_loop api level (v # vs) g =
     (if throws api (IsVersion v) then Inl SchemeError
      else if \<not> isVersion api v then group_loop api level vs g
      else case groupKey api level v of
             Inl e \<Rightarrow> Inl e
           | Inr None \<Rightarrow> group_loop api level vs g
           | Inr (Some k) \<Rightarrow> group_loop api level vs (push_group k v g))"

text \<open>The second loop: every group of more than one version is sorted.\<close>

definition sort_group :: "versioning_api \<Rightarrow> string \<times> string list \<Rightarrow> failure + string \<times> string list" where
  "sort_group api e =
     (if length (snd e) > 1 then
        (case sort_try (\<lambda>a b. throws api (SortVersions a b)) (sortVersions api) (snd e) of
           None \<Rightarrow> Inl SchemeError
         | Some ms \<Rightarrow> Inr (fst e, ms))
      else Inr e)"

fun sort_groups :: "versioning_api \<Rightarrow> groups \<Rightarrow> failure + groups" where
  "sort_groups api [] = Inr []"
| "sort_groups api (e # g) =
     (case sort_group api e of
        Inl x \<Rightarrow> Inl x
      | Inr e' \<Rightarrow> (case sort_groups api g of Inl x \<Rightarrow> Inl x | Inr g' \<Rightarrow> Inr (e' # g')))"

definition groupVersionsBySemverLevel :: "string list \<Rightarrow> versioning_api \<Rightarrow> string \<Rightarrow> failure + groups" where
  "groupVersionsBySemverLevel versions api level =
     (if versions = [] then Inr []
      else case group_loop api level versions [] of
             Inl e \<Rightarrow> Inl e
           | Inr g \<Rightarrow> sort_groups api g)"

text \<open>
  \<^verbatim>\<open>Object.keys\<close>: the keys that are array indices (canonical decimal
  numbers up to \<open>2^32 - 2\<close>) come first, in ascending numeric order, then
  the other keys in insertion order.
\<close>

definition is_array_index :: "string \<Rightarrow> bool" where
  "is_array_index k =
     (k \<noteq> [] \<and> list_all is_digit k \<and> (k = ''0'' \<or> hd k \<noteq> CHR ''0'') \<and>
      digits_val 0 k \<le> 4294967294)"

definition object_keys :: "groups \<Rightarrow> string list" where
  "object_keys g =
     sort_key (digits_val 0) (filter is_array_index (map fst g)) @
     filter (\<lambda>k. \<not> is_array_index k) (map fst g)"

text \<open>
  \<^verbatim>\<open>groups[a][groups[a].length - 1]\<close> inside the comparator of the key
  sort. It is only called on keys of \<^verbatim>\<open>groups\<close>, whose arrays are never
  empty (lemmas \<open>keys_of_set\<close> and \<open>groups_all_nonempty\<close>).
\<close>

definition group_latest :: "groups \<Rightarrow> string \<Rightarrow> string" where
  "group_latest g k = last (the (map_of g k))"

text \<open>The two filter predicates, on a key and the components of the current version.\<close>

definition same_major :: "versioning_api \<Rightarrow> string \<Rightarrow> string \<Rightarrow> bool" where
  "same_major api currentVersion key =
     strict_eq_num (parseInt_opt (js_index (split_on CHR ''.'' key) 0)) (getMajor api currentVersion)"

definition same_major_minor :: "versioning_api \<Rightarrow> string \<Rightarrow> string \<Rightarrow> bool" where
  "same_major_minor api currentVersion key =
     (strict_eq_num (parseInt_opt (js_index (split_on CHR ''.'' key) 0)) (getMajor api currentVersion) \<and>
      strict_eq_num (parseInt_opt (js_index (split_on CHR ''.'' key) 1)) (getMinor api currentVersion))"

text \<open>
  \<^verbatim>\<open>Object.keys(groups).sort(...)\<close>: the comparator calls
  \<^verbatim>\<open>sortVersions\<close> on the last members of the two groups.
\<close>

definition sortedGroupKeys :: "groups \<Rightarrow> versioning_api \<Rightarrow> failure + string list" where
  "sortedGroupKeys g api =
     (case sort_try (\<lambda>a b. throws api (SortVersions (group_latest g a) (group_latest g b)))
             (\<lambda>a b. sortVersions api (group_latest g a) (group_latest g b)) (object_keys g) of
        None \<Rightarrow> Inl SchemeError
      | Some ks \<Rightarrow> Inr ks)"

text \<open>
  The sibling filter. The components of the current version are read once,
  before the filter runs and whatever the keys are: \<^verbatim>\<open>getMajor\<close> at level
  \<open>minor\<close>, \<^verbatim>\<open>getMajor\<close> and then \<^verbatim>\<open>getMinor\<close> at level \<open>patch\<close>.
\<close>

definition filterGroupKeys :: "versioning_api \<Rightarrow> string \<Rightarrow> string \<Rightarrow> string list \<Rightarrow> failure + string list" where
  "filterGroupKeys api level currentVersion groupKeys =
     (if level = ''minor'' then
        (if throws api (GetMajor currentVersion) then Inl SchemeError
         else Inr (filter (same_major api currentVersion) groupKeys))
      else if level = ''patch'' then
        (if throws api (GetMajor currentVersion) then Inl SchemeError
         else if throws api (GetMinor currentVersion) then Inl SchemeError
         else Inr (filter (same_major_minor api currentVersion) groupKeys))
      else Inr groupKeys)"

text \<open>
  The result is \<open>Inr None\<close> for \<^verbatim>\<open>null\<close> or \<^verbatim>\<open>undefined\<close>. An index
  that is not an integer reads \<^verbatim>\<open>undefined\<close> from the key list, and
  \<^verbatim>\<open>groups[undefined]\<close> is the property named \<^verbatim>\<open>"undefined"\<close>; when no
  group has the key, reading \<^verbatim>\<open>length\<close> of the \<^verbatim>\<open>undefined\<close> target
  group is a \<^verbatim>\<open>TypeError\<close>.
\<close>

definition getVersionFromSemverGroups ::
  "groups \<Rightarrow> versioning_api \<Rightarrow> rat \<Rightarrow> string \<Rightarrow> string \<Rightarrow> failure + string option" where
  "getVersionFromSemverGroups g api off level currentVersion =
     (case sortedGroupKeys g api of
        Inl e \<Rightarrow> Inl e
      | Inr groupKeys \<Rightarrow>
          if length groupKeys = 0 then Inr None
          else
            (case filterGroupKeys api level currentVersion groupKeys of
               Inl e \<Rightarrow> Inl e
             | Inr filteredGroupKeys \<Rightarrow>
                 if length filteredGroupKeys = 0 then Inr None
                 else
                   let targetGroupIndex = of_nat (length filteredGroupKeys) - 1 + off in
                   if targetGroupIndex < 0 \<or> targetGroupIndex \<ge> of_nat (length filteredGroupKeys)
                   then Inr None
                   else
                     let key = (case js_index filteredGroupKeys targetGroupIndex of
                                  None \<Rightarrow> ''undefined'' | Some k \<Rightarrow> k)
                     in (case map_of g key of
                           None \<Rightarrow> Inl TypeError
                         | Some targetGroup \<Rightarrow>
                             Inr (js_index targetGroup (of_nat (length targetGroup) - 1)))))"

section \<open>The resolver\<close>

text \<open>
  The world a resolution runs in: the clock (milliseconds), the process-wide
  memory cache and the log of the calls made to \<^verbatim>\<open>registry.getPkgReleases\<close>.
  The registry is a parameter: its answer may depend on the arguments and on
  how many calls came before, and it is either a rejection or a
  \<^verbatim>\<open>ReleaseResult | null\<close>.
\<close>

datatype fetch_args = NoArgs | PkgArgs string string string

record world =
  now :: nat
  cache :: "string \<times> string \<Rightarrow> (release_result \<times> nat) option"
  calls :: "fetch_args list"

type_synonym registry = "nat \<Rightarrow> fetch_args \<Rightarrow> js_error + release_result option"

definition call_registry :: "registry \<Rightarrow> fetch_args \<Rightarrow> world \<Rightarrow> (js_error + release_result option) \<times> world" where
  "call_registry reg a w = (reg (length (calls w)) a, w\<lparr>calls := calls w @ [a]\<rparr>)"

text \<open>
  Modelled from the spec: the module \<^verbatim>\<open>util/cache/memory\<close> is not part
  of the sources. The cache is a key to release-set store with a time to
  live: an entry is read until it expires and is then treated as absent; a
  set gives the entry a fresh time to live, in minutes.
\<close>

definition memCache_get :: "world \<Rightarrow> string \<Rightarrow> string \<Rightarrow> release_result option" where
  "memCache_get w ns key =
     (case cache w (ns, key) of
        None \<Rightarrow> None
      | Some (v, expiresAt) \<Rightarrow> if now w < expiresAt then Some v else None)"

text \<open>
  Modelled from the spec: \<^verbatim>\<open>memCache.set(namespace, key, value, minutes)\<close>
  stores the value with a time to live counted from the clock of the call.
\<close>

definition memCache_set :: "world \<Rightarrow> string \<Rightarrow> string \<Rightarrow> release_result \<Rightarrow> nat \<Rightarrow> world" where
  "memCache_set w ns key v ttlMinutes =
     w\<lparr>cache := (cache w)((ns, key) \<mapsto> (v, now w + ttlMinutes * 60000))\<rparr>"

definition cacheNamespace :: string where
  "cacheNamespace = ''n-minus-one-versions''"

text \<open>\<^verbatim>\<open>`${x}`\<close> for \<^verbatim>\<open>x: string | undefined\<close>.\<close>

definition show_str :: "string option \<Rightarrow> string" where
  "show_str x = (case x of None \<Rightarrow> ''undefined'' | Some s \<Rightarrow> s)"

definition cacheKey :: "string option \<Rightarrow> string option \<Rightarrow> string \<Rightarrow> string" where
  "cacheKey ds pkg vers = show_str ds @ ''-'' @ show_str pkg @ ''-'' @ vers"

text \<open>Truthiness of a \<^verbatim>\<open>string | undefined\<close>.\<close>

definition truthy_str :: "string option \<Rightarrow> bool" where
  "truthy_str x = (case x of None \<Rightarrow> False | Some s \<Rightarrow> s \<noteq> [])"

definition conf_offset :: "config \<Rightarrow> rat option" where
  "conf_offset cfg = (case constraints cfg of None \<Rightarrow> None | Some c \<Rightarrow> offset c)"

definition conf_offsetLevel :: "config \<Rightarrow> string option" where
  "conf_offsetLevel cfg = (case constraints cfg of None \<Rightarrow> None | Some c \<Rightarrow> offsetLevel c)"

text \<open>\<^verbatim>\<open>constraints?.ignorePrerelease !== false\<close>.\<close>

definition conf_ignorePrerelease :: "config \<Rightarrow> bool" where
  "conf_ignorePrerelease cfg =
     (case constraints cfg of None \<Rightarrow> True | Some c \<Rightarrow> ignorePrerelease c \<noteq> Some False)"

definition offset_invalid :: "config \<Rightarrow> bool" where
  "offset_invalid cfg = (case conf_offset cfg of None \<Rightarrow> False | Some n \<Rightarrow> n > 0)"

definition offsetLevel_invalid :: "config \<Rightarrow> bool" where
  "offsetLevel_invalid cfg =
     (truthy_str (conf_offsetLevel cfg) \<and>
      the (conf_offsetLevel cfg) \<notin> set [''major'', ''minor'', ''patch''])"

text \<open>\<^verbatim>\<open>versions?.releases\<close>, with \<^verbatim>\<open>undefined\<close> as the empty list: the
  only use of an absent list is the test \<^verbatim>\<open>!versions?.releases?.length\<close>.\<close>

definition releases_of :: "release_result option \<Rightarrow> release list" where
  "releases_of versions =
     (case versions of
        None \<Rightarrow> []
      | Some r \<Rightarrow> (case releases r of None \<Rightarrow> [] | Some rs \<Rightarrow> rs))"

text \<open>The fetch stage: the body of the \<^verbatim>\<open>try\<close> block.\<close>

definition fetchVersions :: "registry \<Rightarrow> config \<Rightarrow> world \<Rightarrow> (js_error + release_result option) \<times> world" where
  "fetchVersions reg cfg w =
     (if \<not> truthy_str (datasource cfg) \<or> \<not> truthy_str (packageName cfg) then
        call_registry reg NoArgs w
      else
        case memCache_get w cacheNamespace
               (cacheKey (datasource cfg) (packageName cfg) (versioning cfg)) of
          Some cachedVersions \<Rightarrow> (Inr (Some cachedVersions), w)
        | None \<Rightarrow>
            (case call_registry reg
                    (PkgArgs (show_str (datasource cfg)) (show_str (packageName cfg)) (versioning cfg)) w of
               (Inl error, w') \<Rightarrow> (Inl error, w')
             | (Inr versions, w') \<Rightarrow>
                 (case versions of
                    None \<Rightarrow> (Inr versions, w')
                  | Some r \<Rightarrow>
                      if releases_of versions \<noteq> [] then
                        (Inr versions,
                         memCache_set w' cacheNamespace
                           (cacheKey (datasource cfg) (packageName cfg) (versioning cfg)) r 15)
                      else (Inr versions, w'))))"

text \<open>
  The first filter: a version that is not a non-empty string is skipped, and
  so is one that \<^verbatim>\<open>isValid\<close> rejects or throws on.
\<close>

fun valid_versions :: "versioning_api \<Rightarrow> string option list \<Rightarrow> string list" where
  "valid_versions api [] = []"
| "valid_versions api (v # vs) =
     (case v of
        None \<Rightarrow> valid_versions api vs
      | Some s \<Rightarrow>
          if s = [] then valid_versions api vs
          else (case isValid api s of
                  None \<Rightarrow> valid_versions api vs
                | Some b \<Rightarrow> if b then s # valid_versions api vs else valid_versions api vs))"

text \<open>
  The two filters. The second calls \<^verbatim>\<open>isStable\<close> on every version the
  first one kept, with no guard.
\<close>

definition filterVersions :: "versioning_api \<Rightarrow> config \<Rightarrow> release list \<Rightarrow> failure + string list" where
  "filterVersions api cfg rels =
     (let filteredVersions = valid_versions api (map version rels)
      in if conf_ignorePrerelease cfg then
           (if list_ex (\<lambda>v. throws api (IsStable v)) filteredVersions then Inl SchemeError
            else Inr (filter (isStable api) filteredVersions))
         else Inr filteredVersions)"

text \<open>Everything after the fetch, for a non-empty release list.\<close>

definition selectVersion ::
  "versioning_api \<Rightarrow> string \<Rightarrow> string \<Rightarrow> config \<Rightarrow> release list \<Rightarrow> failure + string" where
  "selectVersion api currentValue currentVersion cfg rels =
     (case filterVersions api cfg rels of
        Inl e \<Rightarrow> Inl e
      | Inr filteredVersions \<Rightarrow>
          if length filteredVersions = 0 then Inr currentValue
          else
            (case sort_try (\<lambda>a b. throws api (SortVersions a b)) (sortVersions api) filteredVersions of
               None \<Rightarrow> Inl SchemeError
             | Some sortedVersions \<Rightarrow>
                 if length sortedVersions = 0 then Inr currentValue
                 else
                   let off = (case conf_offset cfg of None \<Rightarrow> 0 | Some n \<Rightarrow> n);
                       level = conf_offsetLevel cfg
                   in
                   if off = 0 then
                     (case js_index sortedVersions (of_nat (length sortedVersions) - 1) of
                        None \<Rightarrow> Inl NotAString
                      | Some v \<Rightarrow> Inr v)
                   else if truthy_str level \<and> off \<noteq> 0 then
                     (case groupVersionsBySemverLevel sortedVersions api (the level) of
                        Inl e \<Rightarrow> Inl e
                      | Inr grouped \<Rightarrow>
                          (case getVersionFromSemverGroups grouped api off (the level) currentVersion of
                             Inl e \<Rightarrow> Inl e
                           | Inr result \<Rightarrow>
                               (case result of
                                  None \<Rightarrow> Inr currentValue
                                | Some r \<Rightarrow> if r \<noteq> [] then Inr r else Inr currentValue)))
                   else
                     let targetIndex = of_nat (length sortedVersions) - 1 + off in
                     if targetIndex < 0 \<or> targetIndex \<ge> of_nat (length sortedVersions)
                     then Inr currentValue
                     else
                       (case js_index sortedVersions targetIndex of
                          None \<Rightarrow> Inl NotAString
                        | Some v \<Rightarrow> Inr v)))"

text \<open>
  \<^verbatim>\<open>getNewValue\<close>: the scheme lookup, the two validations (each
  returns before any fetch), the fetch inside \<^verbatim>\<open>try/catch\<close>, and the
  selection. The calls to the logger have no part in the result and are left
  out; \<^verbatim>\<open>rangeStrategy\<close> is a parameter the body never reads.
\<close>

definition getNewValue ::
  "(string \<rightharpoonup> versioning_api) \<Rightarrow> registry \<Rightarrow> string \<Rightarrow> string \<Rightarrow> string \<Rightarrow> config \<Rightarrow> world
     \<Rightarrow> (failure + string) \<times> world" where
  "getNewValue versionings reg currentValue rangeStrategy currentVersion cfg w =
     (case get versionings (Some (versioning cfg)) of
        Inl e \<Rightarrow> (Inl e, w)
      | Inr api \<Rightarrow>
          if offset_invalid cfg then (Inr currentValue, w)
          else if offsetLevel_invalid cfg then (Inr currentValue, w)
          else
            (case fetchVersions reg cfg w of
               (Inl error, w') \<Rightarrow> (Inr currentValue, w')
             | (Inr versions, w') \<Rightarrow>
                 if length (releases_of versions) = 0 then (Inr currentValue, w')
                 else (selectVersion api currentValue currentVersion cfg (releases_of versions), w')))"

section \<open>The selection when every scheme call returns\<close>

text \<open>
  The values the stages of the resolver compute when no call of the scheme
  throws: the filtered versions, the groups, the ordered group keys and the
  sibling keys. The statements about what is selected are made with them, and
  the lemmas \<open>filterVersions_returns\<close>, \<open>groupVersionsBySemverLevel_returns\<close>,
  \<open>sortedGroupKeys_returns\<close> and \<open>filterGroupKeys_returns\<close> show that the
  functions above, whenever they return, return these values.
\<close>

definition scheme_returns :: "versioning_api \<Rightarrow> bool" where
  "scheme_returns api = (\<forall>c. \<not> throws api c)"

definition filtered_of :: "versioning_api \<Rightarrow> config \<Rightarrow> release list \<Rightarrow> string list" where
  "filtered_of api cfg rels =
     (let filteredVersions = valid_versions api (map version rels)
      in if conf_ignorePrerelease cfg then filter (isStable api) filteredVersions
         else filteredVersions)"

definition group_key_of :: "versioning_api \<Rightarrow> string \<Rightarrow> string \<Rightarrow> string option" where
  "group_key_of api level v =
     (if level = ''major'' then Some (show_num (getMajor api v))
      else if level = ''minor'' then
        Some (show_num (getMajor api v) @ ''.'' @ show_num (getMinor api v))
      else if level = ''patch'' then
        Some (show_num (getMajor api v) @ ''.'' @ show_num (getMinor api v) @ ''.'' @
              show_num (getPatch api v))
      else None)"

fun group_loop_of :: "versioning_api \<Rightarrow> string \<Rightarrow> string list \<Rightarrow> groups \<Rightarrow> groups" where
  "group_loop_of api level [] g = g"
| "group_loop_of api level (v # vs) g =
     (if \<not> isVersion api v then group_loop_of api level vs g
      else case group_key_of api level v of
             None \<Rightarrow> group_loop_of api level vs g
           | Some k \<Rightarrow> group_loop_of api level vs (push_group k v g))"

definition sort_group_of :: "versioning_api \<Rightarrow> string \<times> string list \<Rightarrow> string \<times> string list" where
  "sort_group_of api e =
     (if length (snd e) > 1 then (fst e, sort_cmp (sortVersions api) (snd e)) else e)"

definition groups_of :: "string list \<Rightarrow> versioning_api \<Rightarrow> string \<Rightarrow> groups" where
  "groups_of versions api level =
     (if versions = [] then []
      else map (sort_group_of api) (group_loop_of api level versions []))"

definition keys_of :: "groups \<Rightarrow> versioning_api \<Rightarrow> string list" where
  "keys_of g api =
     sort_cmp (\<lambda>a b. sortVersions api (group_latest g a) (group_latest g b)) (object_keys g)"

definition siblings_of :: "versioning_api \<Rightarrow> string \<Rightarrow> string \<Rightarrow> string list \<Rightarrow> string list" where
  "siblings_of api level currentVersion groupKeys =
     (if level = ''minor'' then filter (same_major api currentVersion) groupKeys
      else if level = ''patch'' then filter (same_major_minor api currentVersion) groupKeys
      else groupKeys)"

text \<open>
  What holds of every property of the groups object: its array is not empty
  and holds only versions of the input that the scheme accepts and that
  render to the property's key.
\<close>

definition group_entry_ok :: "versioning_api \<Rightarrow> string \<Rightarrow> string set \<Rightarrow> string \<times> string list \<Rightarrow> bool" where
  "group_entry_ok api level S e =
     (snd e \<noteq> [] \<and>
      list_all (\<lambda>m. m \<in> S \<and> isVersion api m \<and> group_key_of api level m = Some (fst e)) (snd e))"

text \<open>
  The grouped selection in the words of the specification: the versions are
  grouped by the level, the group keys are ordered by each group's last
  (maximal) member, the keys are restricted to the siblings of the current
  version, the key at index \<open>groupCount - 1 + offset\<close> is chosen and the
  last member of its group is the result; with no key left, or with the
  index outside \<open>[0, groupCount)\<close>, the result is the current value.
\<close>

definition grouped_selection ::
  "versioning_api \<Rightarrow> string \<Rightarrow> int \<Rightarrow> string \<Rightarrow> string \<Rightarrow> string list \<Rightarrow> string" where
  "grouped_selection api level off currentVersion currentValue V =
     (let grouped = groups_of V api level;
          keys = siblings_of api level currentVersion (keys_of grouped api);
          groupCount = int (length keys);
          idx = groupCount - 1 + off
      in if keys = [] \<or> idx < 0 \<or> groupCount \<le> idx then currentValue
         else last (the (map_of grouped (keys ! nat idx))))"

text \<open>
  Names for what the statements below speak about: the release list a call
  obtains (from the registry or from the cache; empty when the fetch fails or
  the list is absent), the filtered and sorted version list made from it,
  and \<^verbatim>\<open>constraints?.offset ?? 0\<close>.
\<close>

definition obtained_releases :: "registry \<Rightarrow> config \<Rightarrow> world \<Rightarrow> release list" where
  "obtained_releases reg cfg w =
     (case fst (fetchVersions reg cfg w) of Inl error \<Rightarrow> [] | Inr versions \<Rightarrow> releases_of versions)"

definition candidates :: "versioning_api \<Rightarrow> registry \<Rightarrow> config \<Rightarrow> world \<Rightarrow> string list" where
  "candidates api reg cfg w =
     sort_cmp (sortVersions api) (filtered_of api cfg (obtained_releases reg cfg w))"

definition effective_offset :: "config \<Rightarrow> rat" where
  "effective_offset cfg = (case conf_offset cfg of None \<Rightarrow> 0 | Some n \<Rightarrow> n)"

text \<open>
  The outcome of the selection over a filtered, sorted version list for any
  offset, integer or not, when every scheme call returns: the grouped
  selection reads the key list, and the flat selection the version list, at
  an index that is a number; where the index is not an integer the read is
  \<^verbatim>\<open>undefined\<close>, which the grouped selection dereferences and the flat
  selection returns.
\<close>

definition grouped_outcome ::
  "versioning_api \<Rightarrow> string \<Rightarrow> rat \<Rightarrow> string \<Rightarrow> string \<Rightarrow> string list \<Rightarrow> failure + string" where
  "grouped_outcome api level off currentVersion currentValue V =
     (let grouped = groups_of V api level;
          keys = siblings_of api level currentVersion (keys_of grouped api);
          idx = of_nat (length keys) - 1 + off
      in if keys = [] \<or> idx < 0 \<or> of_nat (length keys) \<le> idx then Inr currentValue
         else if of_int \<lfloor>idx\<rfloor> = idx then Inr (last (the (map_of grouped (keys ! nat \<lfloor>idx\<rfloor>))))
         else (case map_of grouped ''undefined'' of
                 None \<Rightarrow> Inl TypeError
               | Some targetGroup \<Rightarrow> Inr (last targetGroup)))"

definition selection_outcome ::
  "versioning_api \<Rightarrow> string \<Rightarrow> string \<Rightarrow> config \<Rightarrow> string list \<Rightarrow> failure + string" where
  "selection_outcome api currentValue currentVersion cfg V =
     (let off = effective_offset cfg;
          idx = of_nat (length V) - 1 + off
      in if V = [] then Inr currentValue
         else if off = 0 then Inr (last V)
         else if truthy_str (conf_offsetLevel cfg) then
           grouped_outcome api (the (conf_offsetLevel cfg)) off currentVersion currentValue V
         else if idx < 0 \<or> of_nat (length V) \<le> idx then Inr currentValue
         else if of_int \<lfloor>idx\<rfloor> = idx then Inr (V ! nat \<lfloor>idx\<rfloor>)
         else Inl NotAString)"

text \<open>
  A version component that JavaScript renders in plain decimal: \<^verbatim>\<open>null\<close>,
  or a number below \<open>10^21\<close> in absolute value.
\<close>

definition plain_component :: "int option \<Rightarrow> bool" where
  "plain_component x = (case x of None \<Rightarrow> True | Some n \<Rightarrow> \<bar>n\<bar> < 10 ^ 21)"

section \<open>Retry with exponential backoff\<close>


definition RETRYABLE_ERROR_CODES :: "string list" where
  "RETRYABLE_ERROR_CODES =
     [''ECONNRESET'', ''ETIMEDOUT'', ''ENOTFOUND'', ''ECONNREFUSED'', ''EHOSTUNREACH'',
      ''ENETUNREACH'', ''EADDRINUSE'', ''ECONNABORTED'', ''EPIPE'']"

definition RETRYABLE_STATUS_CODES :: "int list" where
  "RETRYABLE_STATUS_CODES = [408, 429, 500, 502, 503, 504]"


text \<open>\<^verbatim>\<open>s.includes(p)\<close>.\<close>

fun str_includes :: "string \<Rightarrow> string \<Rightarrow> bool" where
  "str_includes [] p = (p = [])"
| "str_includes (c # cs) p = (take (length p) (c # cs) = p \<or> str_includes cs p)"

definition isRetryableError :: "js_error \<Rightarrow> bool" where
  "isRetryableError error =
     (if truthy_str (err_code error) \<and> the (err_code error) \<in> set RETRYABLE_ERROR_CODES then True
      else if (case err_statusCode error of None \<Rightarrow> False
               | Some c \<Rightarrow> c \<noteq> 0 \<and> c \<in> set RETRYABLE_STATUS_CODES) then True
      else if err_name error = Some ''TimeoutError'' \<or>
              (case err_message error of None \<Rightarrow> False | Some m \<Rightarrow> str_includes m ''timeout'') then True
      else if err_name error = Some ''NetworkError'' \<or> err_type error = Some ''network'' then True
      else False)"













definition unauthorized_error :: js_error where
  "unauthorized_error = \<lparr>err_code = None, err_statusCode = Some 401, err_name = Some ''Error'',
                          err_message = Some ''Unauthorized'', err_type = None\<rparr>"


section \<open>A concrete scheme for the scenarios\<close>

text \<open>
  Modelled from the spec: the versioning schemes are not part of the sources.
  The scenarios of the specification are run on this small semantic-version
  scheme: three decimal components joined by dots, an optional pre-release
  tag after a hyphen, ordered by the components and then with a pre-release
  before its release.
\<close>

definition semver_nums :: "string \<Rightarrow> nat list option" where
  "semver_nums v =
     (let ps = split_on CHR ''.'' (takeWhile (\<lambda>c. c \<noteq> CHR ''-'') v)
      in if length ps = 3 \<and> list_all (\<lambda>p. p \<noteq> [] \<and> list_all is_digit p) ps
         then Some (map (digits_val 0) ps) else None)"

fun cmp_nums :: "nat list \<Rightarrow> nat list \<Rightarrow> int" where
  "cmp_nums (x # xs) (y # ys) = (if x < y then - 1 else if y < x then 1 else cmp_nums xs ys)"
| "cmp_nums [] (y # ys) = - 1"
| "cmp_nums (x # xs) [] = 1"
| "cmp_nums [] [] = 0"

definition semver_stable :: "string \<Rightarrow> bool" where
  "semver_stable v = (CHR ''-'' \<notin> set v)"

definition semver_compare :: "string \<Rightarrow> string \<Rightarrow> int" where
  "semver_compare a b =
     (case (semver_nums a, semver_nums b) of
        (Some x, Some y) \<Rightarrow>
          (let c = cmp_nums x y in
           if c \<noteq> 0 then c
           else if semver_stable a = semver_stable b then 0
           else if semver_stable b then - 1 else 1)
      | _ \<Rightarrow> 0)"

definition semver_component :: "nat \<Rightarrow> string \<Rightarrow> int option" where
  "semver_component i v = (case semver_nums v of None \<Rightarrow> None | Some ns \<Rightarrow> Some (int (ns ! i)))"

text \<open>
  Modelled from the spec: the scheme registered as \<open>semver\<close> for the
  scenarios, with the operations of the capability's interface.
\<close>

definition semver_api :: versioning_api where
  "semver_api =
     \<lparr>isValid = (\<lambda>v. Some (semver_nums v \<noteq> None)),
      isVersion = (\<lambda>v. semver_nums v \<noteq> None),
      isStable = semver_stable,
      sortVersions = semver_compare,
      getMajor = semver_component 0,
      getMinor = semver_component 1,
      getPatch = semver_component 2,
      throws = (\<lambda>c. False)\<rparr>"

text \<open>
  Modelled from the spec: the same scheme with component readers and a
  comparator that throw on a string that is not a version, as the readers of
  a semantic-version library do; it is registered as \<open>semver-strict\<close>.
\<close>

definition strict_throws :: "scheme_call \<Rightarrow> bool" where
  "strict_throws c =
     (case c of
        GetMajor v \<Rightarrow> semver_nums v = None
      | GetMinor v \<Rightarrow> semver_nums v = None
      | GetPatch v \<Rightarrow> semver_nums v = None
      | SortVersions a b \<Rightarrow> semver_nums a = None \<or> semver_nums b = None
      | IsVersion v \<Rightarrow> False
      | IsStable v \<Rightarrow> False)"

definition strict_semver_api :: versioning_api where
  "strict_semver_api = semver_api\<lparr>throws := strict_throws\<rparr>"

definition known_versionings :: "string \<rightharpoonup> versioning_api" where
  "known_versionings = [''semver'' \<mapsto> semver_api, ''semver-strict'' \<mapsto> strict_semver_api]"

definition rel :: "string \<Rightarrow> release" where
  "rel v = \<lparr>version = Some v, releaseTimestamp = None\<rparr>"

definition result_of :: "string list \<Rightarrow> release_result" where
  "result_of vs = \<lparr>releases = Some (map rel vs)\<rparr>"

definition mk_config :: "string \<Rightarrow> string \<Rightarrow> rat option \<Rightarrow> string option \<Rightarrow> config" where
  "mk_config ds pkg off level =
     \<lparr>datasource = Some ds, packageName = Some pkg, versioning = ''semver'',
      constraints = Some \<lparr>allowedVersions = None, offset = off, offsetLevel = level,
                          ignorePrerelease = None\<rparr>\<rparr>"

definition empty_world :: world where
  "empty_world = \<lparr>now = 0, cache = (\<lambda>k. None), calls = []\<rparr>"

text \<open>A registry that always answers with the same release list.\<close>

definition const_registry :: "string list \<Rightarrow> registry" where
  "const_registry vs = (\<lambda>n a. Inr (Some (result_of vs)))"

definition scenario1_versions :: "string list" where
  "scenario1_versions = [''1.0.0'', ''1.1.0'', ''2.0.0'', ''2.1.0'', ''3.0.0'', ''3.1.0'']"

text \<open>Versions whose major component is \<open>10^21\<close>.\<close>

definition huge_versions :: "string list" where
  "huge_versions =
     [''1.0.0'', ''1000000000000000000000.0.0'', ''1000000000000000000000.1.0'']"

text \<open>
  A configuration that asks for the scheme \<open>semver-strict\<close>, and a
  release list of two versions for it.
\<close>

definition strict_config :: "rat option \<Rightarrow> string option \<Rightarrow> config" where
  "strict_config off level = (mk_config ''npm'' ''pkg'' off level)\<lparr>versioning := ''semver-strict''\<rparr>"

definition pair_versions :: "string list" where
  "pair_versions = [''1.0.0'', ''1.1.0'']"

section \<open>Basic facts\<close>

lemma set_insort_cmp: "set (insort_cmp cmp x xs) = insert x (set xs)"
  by (induction xs) auto

lemma set_sort_cmp: "set (sort_cmp cmp xs) = set xs"
  by (induction xs) (auto simp: sort_cmp_def set_insort_cmp)

lemma length_insort_cmp: "length (insort_cmp cmp x xs) = Suc (length xs)"
  by (induction xs) auto

lemma length_sort_cmp: "length (sort_cmp cmp xs) = length xs"
  by (induction xs) (auto simp: sort_cmp_def length_insort_cmp)

lemma insort_try_returns: "insort_try thr cmp x xs = Some ys \<Longrightarrow> ys = insort_cmp cmp x xs"
  by (induction xs arbitrary: ys) (auto split: if_splits option.splits)

lemma sort_try_returns: "sort_try thr cmp xs = Some ys \<Longrightarrow> ys = sort_cmp cmp xs"
  by (induction xs arbitrary: ys) (auto simp: sort_cmp_def dest: insort_try_returns split: option.splits)

lemma insort_try_total: "(\<And>a b. \<not> thr a b) \<Longrightarrow> insort_try thr cmp x xs = Some (insort_cmp cmp x xs)"
  by (induction xs) auto

lemma sort_try_total: "(\<And>a b. \<not> thr a b) \<Longrightarrow> sort_try thr cmp xs = Some (sort_cmp cmp xs)"
  by (induction xs) (auto simp: sort_cmp_def insort_try_total)

section \<open>Rendering and reading numbers\<close>

lemma of_char_digit_char: "d < 10 \<Longrightarrow> (of_char (digit_char d) :: nat) = 48 + d"
  by (simp add: digit_char_def)

lemma is_digit_digit_char: "d < 10 \<Longrightarrow> is_digit (digit_char d)"
  by (simp add: is_digit_def of_char_digit_char)

lemma digits_of_all_digits: "list_all is_digit (digits_of n)"
proof (induction n rule: digits_of.induct)
  case (1 n)
  show ?case
  proof (cases "n < 10")
    case True
    then show ?thesis by (subst digits_of.simps) (simp add: is_digit_digit_char)
  next
    case False
    with 1 show ?thesis by (subst digits_of.simps) (simp add: is_digit_digit_char)
  qed
qed

lemma digits_of_nonempty: "digits_of n \<noteq> []"
  by (subst digits_of.simps) simp

lemma digits_val_snoc: "digits_val acc (xs @ [c]) = 10 * digits_val acc xs + (of_char c - 48)"
  by (induction xs arbitrary: acc) auto

lemma digits_val_digits_of: "digits_val 0 (digits_of n) = n"
proof (induction n rule: digits_of.induct)
  case (1 n)
  show ?case
  proof (cases "n < 10")
    case True
    then show ?thesis by (subst digits_of.simps) (simp add: of_char_digit_char)
  next
    case False
    with 1 have "digits_val 0 (digits_of (n div 10)) = n div 10" by simp
    with False show ?thesis
      by (subst digits_of.simps) (simp add: digits_val_snoc of_char_digit_char)
  qed
qed

lemma is_digit_not_space: "is_digit c \<Longrightarrow> \<not> is_space c"
  by (auto simp: is_digit_def is_space_def)

lemma is_digit_not_sign: "is_digit c \<Longrightarrow> c \<noteq> CHR ''-'' \<and> c \<noteq> CHR ''+'' \<and> c \<noteq> CHR ''.''"
  by (auto simp: is_digit_def)

lemma takeWhile_all: "list_all P xs \<Longrightarrow> takeWhile P xs = xs"
  by (induction xs) auto

lemma parseInt_digits:
  assumes "list_all is_digit ds" "ds \<noteq> []"
  shows "parseInt ds = Some (int (digits_val 0 ds))"
proof -
  obtain c r where ds: "ds = c # r" using assms(2) by (cases ds) auto
  with assms(1) have c: "is_digit c" by simp
  have dw: "dropWhile is_space ds = ds" using c ds is_digit_not_space by simp
  have tw: "takeWhile is_digit ds = ds" using assms(1) by (rule takeWhile_all)
  have neg: "(case ds of [] \<Rightarrow> False | c # _ \<Rightarrow> c = CHR ''-'') = False"
    using ds is_digit_not_sign[OF c] by simp
  have u: "(case ds of [] \<Rightarrow> [] | c # r \<Rightarrow> if c = CHR ''-'' \<or> c = CHR ''+'' then r else ds) = ds"
    using ds is_digit_not_sign[OF c] by simp
  show ?thesis
    unfolding parseInt_def Let_def dw neg u tw using assms(2) by simp
qed

lemma parseInt_minus_digits:
  assumes "list_all is_digit ds" "ds \<noteq> []"
  shows "parseInt (CHR ''-'' # ds) = Some (- int (digits_val 0 ds))"
proof -
  have dw: "dropWhile is_space (CHR ''-'' # ds) = CHR ''-'' # ds" by (simp add: is_space_def)
  have tw: "takeWhile is_digit ds = ds" using assms(1) by (rule takeWhile_all)
  show ?thesis
    unfolding parseInt_def Let_def dw using assms(2) by (simp add: tw)
qed

lemma show_nat_plain: "n < 10 ^ 21 \<Longrightarrow> show_nat n = digits_of n"
  by (simp add: show_nat_def)

lemma parseInt_show_int:
  assumes "\<bar>n\<bar> < 10 ^ 21"
  shows "parseInt (show_int n) = Some n"
proof (cases "n < 0")
  case True
  then have "nat (- n) < 10 ^ 21" using assms by (simp add: nat_less_iff)
  then have "show_int n = CHR ''-'' # digits_of (nat (- n))"
    using True by (simp add: show_int_def show_nat_plain)
  then show ?thesis
    using True
    by (simp add: parseInt_minus_digits digits_of_all_digits digits_of_nonempty digits_val_digits_of)
next
  case False
  then have "nat n < 10 ^ 21" using assms by (simp add: nat_less_iff)
  then have "show_int n = digits_of (nat n)"
    using False by (simp add: show_int_def show_nat_plain)
  then show ?thesis
    using False
    by (simp add: parseInt_digits digits_of_all_digits digits_of_nonempty digits_val_digits_of)
qed

lemma parseInt_null: "parseInt ''null'' = None"
  by (simp add: parseInt_def is_space_def is_digit_def)

lemma parseInt_undefined: "parseInt ''undefined'' = None"
  by (simp add: parseInt_def is_space_def is_digit_def)

lemma parseInt_show_num: "plain_component x \<Longrightarrow> parseInt (show_num x) = x"
  by (cases x) (simp_all add: show_num_def parseInt_null parseInt_show_int plain_component_def)

lemma dot_notin_digits: "list_all is_digit ds \<Longrightarrow> CHR ''.'' \<notin> set ds"
  by (induction ds) (auto simp: is_digit_def)

lemma dot_notin_show_int:
  assumes "\<bar>n\<bar> < 10 ^ 21"
  shows "CHR ''.'' \<notin> set (show_int n)"
proof (cases "n < 0")
  case True
  then have "nat (- n) < 10 ^ 21" using assms by (simp add: nat_less_iff)
  then have "show_int n = CHR ''-'' # digits_of (nat (- n))"
    using True by (simp add: show_int_def show_nat_plain)
  then show ?thesis by (simp add: dot_notin_digits digits_of_all_digits)
next
  case False
  then have "nat n < 10 ^ 21" using assms by (simp add: nat_less_iff)
  then have "show_int n = digits_of (nat n)"
    using False by (simp add: show_int_def show_nat_plain)
  then show ?thesis by (simp add: dot_notin_digits digits_of_all_digits)
qed

lemma dot_notin_show_num: "plain_component x \<Longrightarrow> CHR ''.'' \<notin> set (show_num x)"
  by (cases x) (simp_all add: show_num_def plain_component_def dot_notin_show_int)

lemma split_on_nonempty: "split_on c s \<noteq> []"
  by (induction s) (auto split: list.splits)

lemma split_on_no_sep: "c \<notin> set a \<Longrightarrow> split_on c a = [a]"
  by (induction a) auto

lemma split_on_append: "c \<notin> set a \<Longrightarrow> split_on c (a @ c # b) = a # split_on c b"
  by (induction a) auto

lemma js_index_0: "js_index (x # xs) 0 = Some x"
  by (simp add: js_index_def)

lemma js_index_1: "js_index (x # y # xs) 1 = Some y"
  by (simp add: js_index_def)

section \<open>Facts about the groups\<close>

lemma push_group_key_ofs: "fst ` set (push_group k v g) = insert k (fst ` set g)"
proof (induction g)
  case Nil
  then show ?case by simp
next
  case (Cons e g)
  obtain k' ms where e: "e = (k', ms)" by (cases e)
  show ?case
  proof (cases "k' = k")
    case True
    then show ?thesis using e by auto
  next
    case False
    then have "fst ` set (push_group k v (e # g)) = insert k' (fst ` set (push_group k v g))"
      using e by simp
    also have "\<dots> = insert k' (insert k (fst ` set g))" by (simp only: Cons.IH)
    finally show ?thesis using e by auto
  qed
qed


lemma push_group_members:
  "(k', ms) \<in> set (push_group k v g) \<Longrightarrow>
     (k', ms) \<in> set g \<or> (k' = k \<and> (ms = [v] \<or> (\<exists>ms0. (k, ms0) \<in> set g \<and> ms = ms0 @ [v])))"
  by (induction g) (auto split: if_splits)


lemma push_group_ok:
  assumes "list_all (group_entry_ok api level S) g" "v \<in> S" "isVersion api v"
    "group_key_of api level v = Some k"
  shows "list_all (group_entry_ok api level S) (push_group k v g)"
  using assms by (induction g) (auto simp: group_entry_ok_def)

lemma group_loop_of_ok:
  assumes "list_all (group_entry_ok api level S) g" "set vs \<subseteq> S"
  shows "list_all (group_entry_ok api level S) (group_loop_of api level vs g)"
  using assms
proof (induction vs arbitrary: g)
  case Nil
  then show ?case by simp
next
  case (Cons v vs)
  have vs: "set vs \<subseteq> S" and v: "v \<in> S" using Cons.prems(2) by auto
  show ?case
  proof (cases "isVersion api v")
    case False
    then show ?thesis using Cons.IH[OF Cons.prems(1) vs] by simp
  next
    case True
    show ?thesis
    proof (cases "group_key_of api level v")
      case None
      then show ?thesis using True Cons.IH[OF Cons.prems(1) vs] by simp
    next
      case (Some k)
      have "list_all (group_entry_ok api level S) (push_group k v g)"
        by (rule push_group_ok[OF Cons.prems(1) v True Some])
      from Cons.IH[OF this vs] show ?thesis using True Some by simp
    qed
  qed
qed

lemma sort_cmp_nonempty: "xs \<noteq> [] \<Longrightarrow> sort_cmp cmp xs \<noteq> []"
  using length_sort_cmp[of cmp xs] by (metis length_0_conv)

lemma sort_group_of_ok:
  assumes "group_entry_ok api level S e"
  shows "group_entry_ok api level S (sort_group_of api e)"
proof (cases "length (snd e) > 1")
  case False
  then show ?thesis using assms by (simp add: sort_group_of_def)
next
  case True
  then have eq: "sort_group_of api e = (fst e, sort_cmp (sortVersions api) (snd e))"
    by (simp add: sort_group_of_def)
  show ?thesis
    using assms unfolding eq group_entry_ok_def
    by (simp add: list_all_iff set_sort_cmp sort_cmp_nonempty)
qed

lemma groups_ok: "list_all (group_entry_ok api level (set vs)) (groups_of vs api level)"
proof -
  have "list_all (group_entry_ok api level (set vs)) (group_loop_of api level vs [])"
    by (rule group_loop_of_ok) simp_all
  then have "list_all (group_entry_ok api level (set vs)) (map (sort_group_of api) (group_loop_of api level vs []))"
    by (simp add: list_all_iff sort_group_of_ok)
  then show ?thesis by (simp add: groups_of_def)
qed

lemma groups_members:
  assumes "(k, ms) \<in> set (groups_of vs api level)"
  shows "ms \<noteq> [] \<and> (\<forall>m\<in>set ms. m \<in> set vs \<and> isVersion api m \<and> group_key_of api level m = Some k)"
proof -
  have "group_entry_ok api level (set vs) (k, ms)"
    using groups_ok[of api level vs] assms by (simp add: list_all_iff)
  then show ?thesis by (simp add: group_entry_ok_def list_all_iff)
qed


lemma object_keys_set: "set (object_keys g) = fst ` set g"
  by (auto simp: object_keys_def)


lemma keys_of_set: "set (keys_of g api) = fst ` set g"
  by (simp add: keys_of_def set_sort_cmp object_keys_set)


lemma siblings_of_subset: "set (siblings_of api level cver ks) \<subseteq> set ks"
  by (auto simp: siblings_of_def)



section \<open>The scheme calls of the grouping\<close>

text \<open>
  Each function of the resolver that calls the scheme either throws the
  scheme's exception or returns the value of the section above; and it
  returns when every call of the scheme returns.
\<close>

lemma groupKey_cases:
  "groupKey api level v = Inl SchemeError \<or> groupKey api level v = Inr (group_key_of api level v)"
  by (simp add: groupKey_def group_key_of_def)

lemma groupKey_total: "scheme_returns api \<Longrightarrow> groupKey api level v = Inr (group_key_of api level v)"
  by (simp add: groupKey_def group_key_of_def scheme_returns_def)

lemma group_loop_cases:
  "group_loop api level vs g = Inl SchemeError \<or>
   group_loop api level vs g = Inr (group_loop_of api level vs g)"
proof (induction vs arbitrary: g)
  case Nil
  then show ?case by simp
next
  case (Cons v vs)
  show ?case
  proof (cases "throws api (IsVersion v)")
    case True
    then show ?thesis by simp
  next
    case False
    show ?thesis
    proof (cases "isVersion api v")
      case nv: False
      then show ?thesis using False Cons.IH[of g] by simp
    next
      case True
      from groupKey_cases[of api level v] show ?thesis
      proof
        assume "groupKey api level v = Inl SchemeError"
        then show ?thesis using False True by simp
      next
        assume k: "groupKey api level v = Inr (group_key_of api level v)"
        show ?thesis
        proof (cases "group_key_of api level v")
          case None
          then show ?thesis using False True k Cons.IH[of g] by simp
        next
          case (Some key)
          then show ?thesis using False True k Cons.IH[of "push_group key v g"] by simp
        qed
      qed
    qed
  qed
qed

lemma group_loop_total:
  assumes "scheme_returns api"
  shows "group_loop api level vs g = Inr (group_loop_of api level vs g)"
proof (induction vs arbitrary: g)
  case Nil
  then show ?case by simp
next
  case (Cons v vs)
  have t: "\<not> throws api (IsVersion v)" using assms by (simp add: scheme_returns_def)
  show ?case
    using t groupKey_total[OF assms, of level v] Cons.IH
    by (cases "group_key_of api level v") simp_all
qed

lemma sort_group_cases:
  "sort_group api e = Inl SchemeError \<or> sort_group api e = Inr (sort_group_of api e)"
  by (auto simp: sort_group_def sort_group_of_def dest: sort_try_returns split: option.splits)

lemma sort_group_total: "scheme_returns api \<Longrightarrow> sort_group api e = Inr (sort_group_of api e)"
  by (simp add: sort_group_def sort_group_of_def scheme_returns_def sort_try_total)

lemma sort_groups_cases:
  "sort_groups api g = Inl SchemeError \<or> sort_groups api g = Inr (map (sort_group_of api) g)"
proof (induction g)
  case Nil
  then show ?case by simp
next
  case (Cons e g)
  from sort_group_cases[of api e] Cons.IH show ?case by auto
qed

lemma sort_groups_total:
  "scheme_returns api \<Longrightarrow> sort_groups api g = Inr (map (sort_group_of api) g)"
  by (induction g) (simp_all add: sort_group_total)

lemma groupVersionsBySemverLevel_cases:
  "groupVersionsBySemverLevel vs api level = Inl SchemeError \<or>
   groupVersionsBySemverLevel vs api level = Inr (groups_of vs api level)"
  using group_loop_cases[of api level vs "[]"]
    sort_groups_cases[of api "group_loop_of api level vs []"]
  by (auto simp: groupVersionsBySemverLevel_def groups_of_def)

lemma groupVersionsBySemverLevel_returns:
  "groupVersionsBySemverLevel vs api level = Inr g \<Longrightarrow> g = groups_of vs api level"
  using groupVersionsBySemverLevel_cases[of vs api level] by auto

lemma groupVersionsBySemverLevel_total:
  "scheme_returns api \<Longrightarrow> groupVersionsBySemverLevel vs api level = Inr (groups_of vs api level)"
  by (simp add: groupVersionsBySemverLevel_def groups_of_def group_loop_total sort_groups_total)

lemma sortedGroupKeys_cases:
  "sortedGroupKeys g api = Inl SchemeError \<or> sortedGroupKeys g api = Inr (keys_of g api)"
  by (auto simp: sortedGroupKeys_def keys_of_def dest: sort_try_returns split: option.splits)

lemma sortedGroupKeys_returns: "sortedGroupKeys g api = Inr ks \<Longrightarrow> ks = keys_of g api"
  using sortedGroupKeys_cases[of g api] by auto

lemma sortedGroupKeys_total: "scheme_returns api \<Longrightarrow> sortedGroupKeys g api = Inr (keys_of g api)"
  by (simp add: sortedGroupKeys_def keys_of_def scheme_returns_def sort_try_total)

lemma filterGroupKeys_cases:
  "filterGroupKeys api level cver ks = Inl SchemeError \<or>
   filterGroupKeys api level cver ks = Inr (siblings_of api level cver ks)"
  by (simp add: filterGroupKeys_def siblings_of_def)

lemma filterGroupKeys_returns:
  "filterGroupKeys api level cver ks = Inr fk \<Longrightarrow> fk = siblings_of api level cver ks"
  using filterGroupKeys_cases[of api level cver ks] by auto

lemma filterGroupKeys_total:
  "scheme_returns api \<Longrightarrow> filterGroupKeys api level cver ks = Inr (siblings_of api level cver ks)"
  by (simp add: filterGroupKeys_def siblings_of_def scheme_returns_def)

lemma filterVersions_cases:
  "filterVersions api cfg rels = Inl SchemeError \<or>
   filterVersions api cfg rels = Inr (filtered_of api cfg rels)"
  by (simp add: filterVersions_def filtered_of_def Let_def)

lemma filterVersions_returns:
  "filterVersions api cfg rels = Inr fv \<Longrightarrow> fv = filtered_of api cfg rels"
  using filterVersions_cases[of api cfg rels] by auto

lemma filterVersions_total:
  "scheme_returns api \<Longrightarrow> filterVersions api cfg rels = Inr (filtered_of api cfg rels)"
  by (simp add: filterVersions_def filtered_of_def Let_def scheme_returns_def list_ex_iff)

section \<open>Facts about the selection\<close>

lemma js_index_last: "xs \<noteq> [] \<Longrightarrow> js_index xs (of_nat (length xs) - 1) = Some (last xs)"
proof -
  assume ne: "xs \<noteq> []"
  then obtain ys z where xs: "xs = ys @ [z]" by (cases xs rule: rev_cases) auto
  have "(of_nat (length xs) - 1 :: rat) = of_int (int (length ys))" using xs by simp
  then show ?thesis unfolding js_index_def using xs by (simp add: nth_append)
qed

lemma js_index_integer:
  "0 \<le> n \<Longrightarrow> n < int (length xs) \<Longrightarrow> js_index xs (of_int n) = Some (xs ! nat n)"
  unfolding js_index_def by simp

lemma js_index_in_range:
  assumes "of_int \<lfloor>i\<rfloor> = i" "0 \<le> i" "i < of_nat (length xs)"
  shows "js_index xs i = Some (xs ! nat \<lfloor>i\<rfloor>)"
  using assms by (simp add: js_index_def)

lemma js_index_not_integer: "of_int \<lfloor>i\<rfloor> \<noteq> i \<Longrightarrow> js_index xs i = None"
  by (simp add: js_index_def)

lemma groups_all_nonempty: "list_all (\<lambda>e. snd e \<noteq> []) (groups_of vs api level)"
  using groups_ok[of api level vs] by (simp add: list_all_iff group_entry_ok_def)

lemma nth_floor_in_set:
  assumes "0 \<le> (i::rat)" "i < of_nat (length xs)"
  shows "xs ! nat \<lfloor>i\<rfloor> \<in> set xs"
proof -
  have "\<lfloor>i\<rfloor> < int (length xs)" using assms(2) by (simp add: floor_less_iff)
  moreover have "0 \<le> \<lfloor>i\<rfloor>" using assms(1) by simp
  ultimately have "nat \<lfloor>i\<rfloor> < length xs" by linarith
  then show ?thesis by simp
qed

text \<open>
  The choice of the target group from the sibling keys, once the two calls
  that may throw have returned.
\<close>

lemma pick_from_keys:
  assumes ne: "list_all (\<lambda>e. snd e \<noteq> []) g"
    and gk: "sortedGroupKeys g api = Inr (keys_of g api)"
    and fk: "keys_of g api \<noteq> [] \<Longrightarrow>
             filterGroupKeys api level cver (keys_of g api) = Inr (siblings_of api level cver (keys_of g api))"
  shows "getVersionFromSemverGroups g api off level cver =
    (let fk = siblings_of api level cver (keys_of g api);
         idx = of_nat (length fk) - 1 + off
     in if fk = [] \<or> idx < 0 \<or> of_nat (length fk) \<le> idx then Inr None
        else if of_int \<lfloor>idx\<rfloor> = idx then Inr (Some (last (the (map_of g (fk ! nat \<lfloor>idx\<rfloor>)))))
        else (case map_of g ''undefined'' of
                None \<Rightarrow> Inl TypeError
              | Some targetGroup \<Rightarrow> Inr (Some (last targetGroup))))"
proof -
  define ks where "ks = keys_of g api"
  define sk where "sk = siblings_of api level cver ks"
  let ?idx = "of_nat (length sk) - 1 + off"
  have sub: "set sk \<subseteq> set ks" unfolding sk_def by (rule siblings_of_subset)
  have lastg: "js_index tg (of_nat (length tg) - 1) = Some (last tg)" if "map_of g k = Some tg" for k tg
  proof -
    have "(k, tg) \<in> set g" using that by (rule map_of_SomeD)
    then have "tg \<noteq> []" using ne by (auto simp: list_all_iff)
    then show ?thesis by (rule js_index_last)
  qed
  show ?thesis
  proof (cases "ks = []")
    case True
    then have "sk = []" using sub by auto
    then show ?thesis
      unfolding getVersionFromSemverGroups_def gk Let_def ks_def[symmetric] sk_def[symmetric]
      using True by simp
  next
    case kne: False
    have f: "filterGroupKeys api level cver ks = Inr sk"
      using fk kne unfolding ks_def sk_def by simp
    show ?thesis
    proof (cases "sk = [] \<or> ?idx < 0 \<or> of_nat (length sk) \<le> ?idx")
      case True
      then show ?thesis
        unfolding getVersionFromSemverGroups_def gk Let_def ks_def[symmetric] sk_def[symmetric]
        using kne f by auto
    next
      case False
      then have r0: "0 \<le> ?idx" and r1: "?idx < of_nat (length sk)" and sne: "sk \<noteq> []" by auto
      show ?thesis
      proof (cases "of_int \<lfloor>?idx\<rfloor> = ?idx")
        case nonint: False
        then have ji: "js_index sk ?idx = None" by (rule js_index_not_integer)
        show ?thesis
        proof (cases "map_of g ''undefined''")
          case None
          then show ?thesis
            unfolding getVersionFromSemverGroups_def gk Let_def ks_def[symmetric] sk_def[symmetric]
            using kne f False nonint ji by simp
        next
          case (Some tg)
          then show ?thesis
            unfolding getVersionFromSemverGroups_def gk Let_def ks_def[symmetric] sk_def[symmetric]
            using kne f False nonint ji lastg[OF Some] by simp
        qed
      next
        case True
        define key where "key = sk ! nat \<lfloor>?idx\<rfloor>"
        have ji: "js_index sk ?idx = Some key"
          unfolding key_def using True r0 r1 by (rule js_index_in_range)
        have "key \<in> set sk" unfolding key_def using r0 r1 by (rule nth_floor_in_set)
        then have "key \<in> fst ` set g" using sub unfolding ks_def keys_of_set by auto
        then obtain tg where tg: "map_of g key = Some tg"
          by (metis map_of_eq_None_iff not_None_eq)
        show ?thesis
          unfolding getVersionFromSemverGroups_def gk Let_def ks_def[symmetric] sk_def[symmetric]
            key_def[symmetric]
          using kne f False True ji tg lastg[OF tg] by simp
      qed
    qed
  qed
qed

lemma getVersionFromSemverGroups_cases:
  assumes ne: "list_all (\<lambda>e. snd e \<noteq> []) g"
  shows "getVersionFromSemverGroups g api off level cver = Inl SchemeError \<or>
    getVersionFromSemverGroups g api off level cver =
    (let fk = siblings_of api level cver (keys_of g api);
         idx = of_nat (length fk) - 1 + off
     in if fk = [] \<or> idx < 0 \<or> of_nat (length fk) \<le> idx then Inr None
        else if of_int \<lfloor>idx\<rfloor> = idx then Inr (Some (last (the (map_of g (fk ! nat \<lfloor>idx\<rfloor>)))))
        else (case map_of g ''undefined'' of
                None \<Rightarrow> Inl TypeError
              | Some targetGroup \<Rightarrow> Inr (Some (last targetGroup))))"
proof (cases "sortedGroupKeys g api = Inr (keys_of g api)")
  case False
  then have "sortedGroupKeys g api = Inl SchemeError" using sortedGroupKeys_cases[of g api] by simp
  then show ?thesis by (simp add: getVersionFromSemverGroups_def)
next
  case gk: True
  show ?thesis
  proof (cases "keys_of g api \<noteq> [] \<and>
                filterGroupKeys api level cver (keys_of g api) \<noteq>
                  Inr (siblings_of api level cver (keys_of g api))")
    case True
    then have "filterGroupKeys api level cver (keys_of g api) = Inl SchemeError"
      using filterGroupKeys_cases[of api level cver "keys_of g api"] by simp
    then show ?thesis using True gk by (simp add: getVersionFromSemverGroups_def)
  next
    case False
    then have "keys_of g api \<noteq> [] \<Longrightarrow>
             filterGroupKeys api level cver (keys_of g api) = Inr (siblings_of api level cver (keys_of g api))"
      by simp
    from pick_from_keys[OF ne gk this] show ?thesis by simp
  qed
qed

lemma getVersionFromSemverGroups_total:
  assumes ne: "list_all (\<lambda>e. snd e \<noteq> []) g" and sr: "scheme_returns api"
  shows "getVersionFromSemverGroups g api off level cver =
    (let fk = siblings_of api level cver (keys_of g api);
         idx = of_nat (length fk) - 1 + off
     in if fk = [] \<or> idx < 0 \<or> of_nat (length fk) \<le> idx then Inr None
        else if of_int \<lfloor>idx\<rfloor> = idx then Inr (Some (last (the (map_of g (fk ! nat \<lfloor>idx\<rfloor>)))))
        else (case map_of g ''undefined'' of
                None \<Rightarrow> Inl TypeError
              | Some targetGroup \<Rightarrow> Inr (Some (last targetGroup))))"
  by (rule pick_from_keys[OF ne sortedGroupKeys_total[OF sr]]) (rule filterGroupKeys_total[OF sr])

lemma valid_versions_props:
  "s \<in> set (valid_versions api vs) \<Longrightarrow> s \<noteq> [] \<and> isValid api s = Some True \<and> Some s \<in> set vs"
  by (induction vs) (auto split: option.splits if_splits)

lemma filtered_of_props:
  assumes "s \<in> set (filtered_of api cfg rels)"
  shows "s \<noteq> [] \<and> isValid api s = Some True \<and> Some s \<in> set (map version rels) \<and>
         (if conf_ignorePrerelease cfg then isStable api s else True)"
  using assms valid_versions_props[of s api "map version rels"]
  by (auto simp: filtered_of_def Let_def split: if_splits)

lemma group_last_member:
  assumes "(k, ms) \<in> set (groups_of V api level)"
  shows "last ms \<in> set V"
proof -
  from groups_members[OF assms] have "ms \<noteq> []" and "\<forall>m\<in>set ms. m \<in> set V" by auto
  then show ?thesis using last_in_set by blast
qed

lemma sibling_key_group:
  assumes "k \<in> set (siblings_of api level cver (keys_of g api))"
  shows "\<exists>ms. map_of g k = Some ms \<and> (k, ms) \<in> set g"
proof -
  have "k \<in> fst ` set g"
    using assms siblings_of_subset[of api level cver "keys_of g api"] by (auto simp: keys_of_set)
  then obtain ms where "map_of g k = Some ms" by (metis map_of_eq_None_iff not_None_eq)
  then show ?thesis using map_of_SomeD by fastforce
qed

lemma grouped_selection_cases:
  "grouped_selection api level off cver cv V = cv \<or>
   (\<exists>k ms. k \<in> set (siblings_of api level cver
                 (keys_of (groups_of V api level) api)) \<and>
            (k, ms) \<in> set (groups_of V api level) \<and>
            grouped_selection api level off cver cv V = last ms)"
proof -
  define g where "g = groups_of V api level"
  define fk where "fk = siblings_of api level cver (keys_of g api)"
  define idx where "idx = int (length fk) - 1 + off"
  show ?thesis
  proof (cases "fk = [] \<or> idx < 0 \<or> int (length fk) \<le> idx")
    case True
    then have "grouped_selection api level off cver cv V = cv"
      unfolding grouped_selection_def Let_def g_def[symmetric] fk_def[symmetric] idx_def[symmetric]
      by simp
    then show ?thesis by simp
  next
    case False
    define key where "key = fk ! nat idx"
    have "nat idx < length fk" using False by linarith
    then have kin: "key \<in> set fk" unfolding key_def by simp
    then obtain tg where tg: "map_of g key = Some tg" and mem: "(key, tg) \<in> set g"
      using sibling_key_group[of key api level cver g] unfolding fk_def by blast
    have "grouped_selection api level off cver cv V = last tg"
      unfolding grouped_selection_def Let_def g_def[symmetric] fk_def[symmetric] idx_def[symmetric]
        key_def[symmetric]
      using False tg by simp
    with kin mem show ?thesis unfolding fk_def g_def by blast
  qed
qed

lemma grouped_selection_member:
  assumes "grouped_selection api level off cver cv V \<noteq> cv"
  shows "grouped_selection api level off cver cv V \<in> set V"
proof -
  from grouped_selection_cases[of api level off cver cv V] assms
  obtain k ms where m: "(k, ms) \<in> set (groups_of V api level)"
    and eq: "grouped_selection api level off cver cv V = last ms" by blast
  from group_last_member[OF m] eq show ?thesis by simp
qed


text \<open>For an integer offset the outcome is the grouped selection.\<close>

lemma grouped_outcome_int:
  "grouped_outcome api level (of_int off) cver cv V = Inr (grouped_selection api level off cver cv V)"
proof -
  have e: "(of_nat n - 1 + of_int off :: rat) = of_int (int n - 1 + off)" for n by simp
  have n: "(of_nat n :: rat) = of_int (int n)" for n by simp
  show ?thesis
    unfolding grouped_outcome_def grouped_selection_def Let_def e
    unfolding n of_int_less_iff of_int_le_iff floor_of_int of_int_0_less_iff of_int_less_0_iff
    by simp
qed


lemma grouped_outcome_cases:
  assumes "grouped_outcome api level off cver cv V = Inr s"
  shows "s = cv \<or> (\<exists>k ms. (k, ms) \<in> set (groups_of V api level) \<and> s = last ms)"
proof -
  define G where "G = groups_of V api level"
  define fk where "fk = siblings_of api level cver (keys_of G api)"
  let ?idx = "of_nat (length fk) - 1 + off"
  show ?thesis
  proof (cases "fk = [] \<or> ?idx < 0 \<or> of_nat (length fk) \<le> ?idx")
    case True
    then show ?thesis
      using assms unfolding grouped_outcome_def Let_def G_def[symmetric] fk_def[symmetric] by auto
  next
    case False
    then have r0: "0 \<le> ?idx" and r1: "?idx < of_nat (length fk)" by auto
    show ?thesis
    proof (cases "of_int \<lfloor>?idx\<rfloor> = ?idx")
      case True
      define key where "key = fk ! nat \<lfloor>?idx\<rfloor>"
      have "key \<in> set fk" unfolding key_def using r0 r1 by (rule nth_floor_in_set)
      then obtain tg where tg: "map_of G key = Some tg" and mem: "(key, tg) \<in> set G"
        using sibling_key_group[of key api level cver G] unfolding fk_def by blast
      have "s = last tg"
        using assms False True tg
        unfolding grouped_outcome_def Let_def G_def[symmetric] fk_def[symmetric] key_def[symmetric]
        by simp
      then show ?thesis using mem unfolding G_def by blast
    next
      case nonint: False
      then obtain tg where tg: "map_of G ''undefined'' = Some tg" and s: "s = last tg"
        using assms False
        unfolding grouped_outcome_def Let_def G_def[symmetric] fk_def[symmetric]
        by (auto split: option.splits)
      from tg have "(''undefined'', tg) \<in> set G" by (rule map_of_SomeD)
      then show ?thesis using s unfolding G_def by blast
    qed
  qed
qed

lemma grouped_outcome_member:
  assumes "grouped_outcome api level off cver cv V = Inr s" and "s \<noteq> cv"
  shows "s \<in> set V"
  using grouped_outcome_cases[OF assms(1)] assms(2) group_last_member by blast

text \<open>
  What the caller of \<^verbatim>\<open>getVersionFromSemverGroups\<close> does with its
  result, when the result is the choice from the sibling keys.
\<close>

lemma grouped_result:
  assumes pk: "getVersionFromSemverGroups (groups_of V api level) api off level cver =
    (let fk = siblings_of api level cver (keys_of (groups_of V api level) api);
         idx = of_nat (length fk) - 1 + off
     in if fk = [] \<or> idx < 0 \<or> of_nat (length fk) \<le> idx then Inr None
        else if of_int \<lfloor>idx\<rfloor> = idx
          then Inr (Some (last (the (map_of (groups_of V api level) (fk ! nat \<lfloor>idx\<rfloor>)))))
        else (case map_of (groups_of V api level) ''undefined'' of
                None \<Rightarrow> Inl TypeError
              | Some targetGroup \<Rightarrow> Inr (Some (last targetGroup))))"
    and ne: "\<forall>v \<in> set V. v \<noteq> []"
  shows "(case getVersionFromSemverGroups (groups_of V api level) api off level cver of
               Inl e \<Rightarrow> Inl e
             | Inr result \<Rightarrow>
                 (case result of
                    None \<Rightarrow> Inr cv
                  | Some r \<Rightarrow> if r \<noteq> [] then Inr r else Inr cv)) =
         grouped_outcome api level off cver cv V"
proof -
  define G where "G = groups_of V api level"
  define fk where "fk = siblings_of api level cver (keys_of G api)"
  let ?idx = "of_nat (length fk) - 1 + off"
  have lastne: "last tg \<noteq> []" if "(k, tg) \<in> set G" for k tg
    using group_last_member[of k tg V api level] that ne unfolding G_def by blast
  show ?thesis
  proof (cases "fk = [] \<or> ?idx < 0 \<or> of_nat (length fk) \<le> ?idx")
    case True
    then show ?thesis
      unfolding pk unfolding grouped_outcome_def Let_def G_def[symmetric] fk_def[symmetric] by auto
  next
    case False
    then have r0: "0 \<le> ?idx" and r1: "?idx < of_nat (length fk)" by auto
    show ?thesis
    proof (cases "of_int \<lfloor>?idx\<rfloor> = ?idx")
      case True
      define key where "key = fk ! nat \<lfloor>?idx\<rfloor>"
      have "key \<in> set fk" unfolding key_def using r0 r1 by (rule nth_floor_in_set)
      then obtain tg where tg: "map_of G key = Some tg" and mem: "(key, tg) \<in> set G"
        using sibling_key_group[of key api level cver G] unfolding fk_def by blast
      show ?thesis
        unfolding pk
        unfolding grouped_outcome_def Let_def G_def[symmetric] fk_def[symmetric] key_def[symmetric]
        using False True tg lastne[OF mem] by simp
    next
      case nonint: False
      show ?thesis
      proof (cases "map_of G ''undefined''")
        case None
        then show ?thesis
          unfolding pk unfolding grouped_outcome_def Let_def G_def[symmetric] fk_def[symmetric]
          using False nonint by simp
      next
        case (Some tg)
        then have "(''undefined'', tg) \<in> set G" by (rule map_of_SomeD)
        then show ?thesis
          unfolding pk unfolding grouped_outcome_def Let_def G_def[symmetric] fk_def[symmetric]
          using False nonint Some lastne by simp
      qed
    qed
  qed
qed

lemma filtered_nonempty_strings:
  "\<forall>v \<in> set (sort_cmp cmp (filtered_of api cfg rels)). v \<noteq> []"
  using filtered_of_props[of _ api cfg rels] by (auto simp: set_sort_cmp)

text \<open>
  The selection, step by step: the filter, the sort, and at a level with a
  non-zero offset the grouping and the choice from the groups. Each step
  either throws what the scheme threw or has the value of its counterpart
  among the definitions for a scheme that returns.
\<close>

lemma selectVersion_steps:
  assumes fv: "filterVersions api cfg rels = Inr (filtered_of api cfg rels)"
    and st: "filtered_of api cfg rels \<noteq> [] \<Longrightarrow>
             sort_try (\<lambda>a b. throws api (SortVersions a b)) (sortVersions api) (filtered_of api cfg rels) =
               Some (sort_cmp (sortVersions api) (filtered_of api cfg rels))"
    and gv: "filtered_of api cfg rels \<noteq> [] \<Longrightarrow> effective_offset cfg \<noteq> 0 \<Longrightarrow>
             truthy_str (conf_offsetLevel cfg) \<Longrightarrow>
             groupVersionsBySemverLevel (sort_cmp (sortVersions api) (filtered_of api cfg rels)) api
               (the (conf_offsetLevel cfg)) =
             Inr (groups_of (sort_cmp (sortVersions api) (filtered_of api cfg rels)) api
               (the (conf_offsetLevel cfg)))"
    and pk: "filtered_of api cfg rels \<noteq> [] \<Longrightarrow> effective_offset cfg \<noteq> 0 \<Longrightarrow>
             truthy_str (conf_offsetLevel cfg) \<Longrightarrow>
             (case getVersionFromSemverGroups
                  (groups_of (sort_cmp (sortVersions api) (filtered_of api cfg rels)) api
                     (the (conf_offsetLevel cfg)))
                  api (effective_offset cfg) (the (conf_offsetLevel cfg)) cver of
               Inl e \<Rightarrow> Inl e
             | Inr result \<Rightarrow>
                 (case result of
                    None \<Rightarrow> Inr cv
                  | Some r \<Rightarrow> if r \<noteq> [] then Inr r else Inr cv)) =
             grouped_outcome api (the (conf_offsetLevel cfg)) (effective_offset cfg) cver cv
               (sort_cmp (sortVersions api) (filtered_of api cfg rels))"
  shows "selectVersion api cv cver cfg rels =
           selection_outcome api cv cver cfg (sort_cmp (sortVersions api) (filtered_of api cfg rels))"
proof -
  define F where "F = filtered_of api cfg rels"
  define V where "V = sort_cmp (sortVersions api) F"
  define off where "off = effective_offset cfg"
  have off': "(case conf_offset cfg of None \<Rightarrow> 0 | Some n \<Rightarrow> n) = off"
    by (simp add: off_def effective_offset_def)
  have len: "length V = length F" unfolding V_def by (rule length_sort_cmp)
  show ?thesis
  proof (cases "F = []")
    case True
    then have "V = []" using len by simp
    then show ?thesis
      unfolding selectVersion_def selection_outcome_def fv Let_def F_def[symmetric]
      unfolding V_def[symmetric]
      using True by simp
  next
    case Fne: False
    then have Vne: "V \<noteq> []" using len by auto
    have s: "sort_try (\<lambda>a b. throws api (SortVersions a b)) (sortVersions api) F = Some V"
      using st Fne unfolding F_def V_def by simp
    show ?thesis
    proof (cases "off = 0")
      case True
      then show ?thesis
        unfolding selectVersion_def selection_outcome_def fv Let_def F_def[symmetric]
        unfolding off' V_def[symmetric] off_def[symmetric]
        using Fne Vne s by (simp add: js_index_last)
    next
      case off0: False
      show ?thesis
      proof (cases "truthy_str (conf_offsetLevel cfg)")
        case True
        note g = gv[folded F_def, folded V_def, folded off_def, OF Fne off0 True]
        note p = pk[folded F_def, folded V_def, folded off_def, OF Fne off0 True]
        show ?thesis
          unfolding selectVersion_def selection_outcome_def fv Let_def F_def[symmetric] s off'
            V_def[symmetric] off_def[symmetric]
          using Fne Vne off0 True g p s by simp
      next
        case lev: False
        let ?idx = "of_nat (length V) - 1 + off"
        show ?thesis
        proof (cases "?idx < 0 \<or> of_nat (length V) \<le> ?idx")
          case True
          then show ?thesis
            unfolding selectVersion_def selection_outcome_def fv Let_def F_def[symmetric]
            unfolding off' V_def[symmetric] off_def[symmetric]
            using Fne Vne off0 lev s by auto
        next
          case False
          then show ?thesis
            unfolding selectVersion_def selection_outcome_def fv Let_def F_def[symmetric]
            unfolding off' V_def[symmetric] off_def[symmetric]
            using Fne Vne off0 lev s by (auto simp: js_index_def)
        qed
      qed
    qed
  qed
qed

lemma selectVersion_total:
  assumes sr: "scheme_returns api"
  shows "selectVersion api cv cver cfg rels =
           selection_outcome api cv cver cfg (sort_cmp (sortVersions api) (filtered_of api cfg rels))"
proof (rule selectVersion_steps)
  show "filterVersions api cfg rels = Inr (filtered_of api cfg rels)"
    by (rule filterVersions_total[OF sr])
  show "sort_try (\<lambda>a b. throws api (SortVersions a b)) (sortVersions api) (filtered_of api cfg rels) =
               Some (sort_cmp (sortVersions api) (filtered_of api cfg rels))"
    by (rule sort_try_total) (use sr in \<open>simp add: scheme_returns_def\<close>)
  show "groupVersionsBySemverLevel (sort_cmp (sortVersions api) (filtered_of api cfg rels)) api
               (the (conf_offsetLevel cfg)) =
             Inr (groups_of (sort_cmp (sortVersions api) (filtered_of api cfg rels)) api
               (the (conf_offsetLevel cfg)))"
    by (rule groupVersionsBySemverLevel_total[OF sr])
  show "(case getVersionFromSemverGroups
                  (groups_of (sort_cmp (sortVersions api) (filtered_of api cfg rels)) api
                     (the (conf_offsetLevel cfg)))
                  api (effective_offset cfg) (the (conf_offsetLevel cfg)) cver of
               Inl e \<Rightarrow> Inl e
             | Inr result \<Rightarrow>
                 (case result of
                    None \<Rightarrow> Inr cv
                  | Some r \<Rightarrow> if r \<noteq> [] then Inr r else Inr cv)) =
             grouped_outcome api (the (conf_offsetLevel cfg)) (effective_offset cfg) cver cv
               (sort_cmp (sortVersions api) (filtered_of api cfg rels))"
    by (rule grouped_result[OF getVersionFromSemverGroups_total[OF groups_all_nonempty sr]
          filtered_nonempty_strings])
qed

lemma selectVersion_cases:
  "selectVersion api cv cver cfg rels = Inl SchemeError \<or>
   selectVersion api cv cver cfg rels =
     selection_outcome api cv cver cfg (sort_cmp (sortVersions api) (filtered_of api cfg rels))"
proof -
  define F where "F = filtered_of api cfg rels"
  define V where "V = sort_cmp (sortVersions api) F"
  define off where "off = effective_offset cfg"
  define level where "level = the (conf_offsetLevel cfg)"
  define G where "G = groups_of V api level"
  have off': "(case conf_offset cfg of None \<Rightarrow> 0 | Some n \<Rightarrow> n) = off"
    by (simp add: off_def effective_offset_def)
  have len: "length V = length F" unfolding V_def by (rule length_sort_cmp)
  show ?thesis
  proof (cases "filterVersions api cfg rels = Inr F")
    case False
    then have "filterVersions api cfg rels = Inl SchemeError"
      using filterVersions_cases[of api cfg rels] unfolding F_def by simp
    then show ?thesis by (simp add: selectVersion_def)
  next
    case fv: True
    show ?thesis
    proof (cases "F \<noteq> [] \<and>
        sort_try (\<lambda>a b. throws api (SortVersions a b)) (sortVersions api) F \<noteq> Some V")
      case True
      then have "sort_try (\<lambda>a b. throws api (SortVersions a b)) (sortVersions api) F = None"
        using sort_try_returns[of "\<lambda>a b. throws api (SortVersions a b)" "sortVersions api" F]
        unfolding V_def by (cases "sort_try (\<lambda>a b. throws api (SortVersions a b)) (sortVersions api) F") auto
      then show ?thesis using True by (simp add: selectVersion_def fv)
    next
      case False
      then have st: "F \<noteq> [] \<Longrightarrow>
          sort_try (\<lambda>a b. throws api (SortVersions a b)) (sortVersions api) F = Some V"
        by simp
      show ?thesis
      proof (cases "F \<noteq> [] \<and> off \<noteq> 0 \<and> truthy_str (conf_offsetLevel cfg)")
        case False
        have "selectVersion api cv cver cfg rels = selection_outcome api cv cver cfg V"
          unfolding V_def F_def
          by (rule selectVersion_steps)
            (use fv st False in \<open>auto simp: F_def V_def off_def\<close>)
        then show ?thesis unfolding V_def F_def by simp
      next
        case grouped: True
        then have Fne: "F \<noteq> []" and off0: "off \<noteq> 0" and lev: "truthy_str (conf_offsetLevel cfg)"
          by auto
        have Vne: "V \<noteq> []" using Fne len by auto
        note s = st[OF Fne]
        show ?thesis
        proof (cases "groupVersionsBySemverLevel V api level = Inr G")
          case False
          then have "groupVersionsBySemverLevel V api level = Inl SchemeError"
            using groupVersionsBySemverLevel_cases[of V api level] unfolding G_def by simp
          then have "selectVersion api cv cver cfg rels = Inl SchemeError"
            unfolding selectVersion_def fv Let_def off' level_def[symmetric]
            using Fne Vne off0 lev s by simp
          then show ?thesis by simp
        next
          case gv: True
          show ?thesis
          proof (cases "getVersionFromSemverGroups G api off level cver = Inl SchemeError")
            case True
            then have "selectVersion api cv cver cfg rels = Inl SchemeError"
              unfolding selectVersion_def fv Let_def off' level_def[symmetric]
              using Fne Vne off0 lev s gv by simp
            then show ?thesis by simp
          next
            case False
            have ne: "\<forall>v \<in> set V. v \<noteq> []"
              unfolding V_def F_def by (rule filtered_nonempty_strings)
            have pk: "(case getVersionFromSemverGroups G api off level cver of
                 Inl e \<Rightarrow> Inl e
               | Inr result \<Rightarrow>
                   (case result of
                      None \<Rightarrow> Inr cv
                    | Some r \<Rightarrow> if r \<noteq> [] then Inr r else Inr cv)) =
               grouped_outcome api level off cver cv V"
              unfolding G_def
              by (rule grouped_result[OF _ ne])
                (use getVersionFromSemverGroups_cases[where g = "groups_of V api level" and api = api
                    and off = off and level = level and cver = cver, OF groups_all_nonempty]
                  False in \<open>simp add: G_def\<close>)
            have "selectVersion api cv cver cfg rels = selection_outcome api cv cver cfg V"
              unfolding V_def F_def
              by (rule selectVersion_steps)
                (use fv s gv pk in \<open>simp_all add: F_def V_def off_def level_def G_def\<close>)
            then show ?thesis unfolding V_def F_def by simp
          qed
        qed
      qed
    qed
  qed
qed

lemma selection_outcome_member:
  assumes "selection_outcome api cv cver cfg V = Inr s" and "s \<noteq> cv"
  shows "s \<in> set V"
proof -
  define off where "off = effective_offset cfg"
  let ?idx = "of_nat (length V) - 1 + off"
  have Vne: "V \<noteq> []" using assms by (auto simp: selection_outcome_def)
  show ?thesis
  proof (cases "off = 0")
    case True
    then have "s = last V"
      using assms(1) Vne unfolding selection_outcome_def Let_def off_def[symmetric] by simp
    then show ?thesis using Vne by simp
  next
    case off0: False
    show ?thesis
    proof (cases "truthy_str (conf_offsetLevel cfg)")
      case True
      then have "grouped_outcome api (the (conf_offsetLevel cfg)) off cver cv V = Inr s"
        using assms(1) Vne off0 unfolding selection_outcome_def Let_def off_def[symmetric] by simp
      then show ?thesis using assms(2) by (rule grouped_outcome_member)
    next
      case False
      then have r: "\<not> (?idx < 0 \<or> of_nat (length V) \<le> ?idx)" and "of_int \<lfloor>?idx\<rfloor> = ?idx"
        and "s = V ! nat \<lfloor>?idx\<rfloor>"
        using assms Vne off0 unfolding selection_outcome_def Let_def off_def[symmetric]
        by (auto split: if_splits)
      then show ?thesis using nth_floor_in_set[of ?idx V] by auto
    qed
  qed
qed

text \<open>For an integer offset the outcome is a string.\<close>

lemma selection_outcome_int:
  assumes "effective_offset cfg = of_int off"
  shows "selection_outcome api cv cver cfg V =
     Inr (let idx = int (length V) - 1 + off
          in if V = [] then cv
             else if off = 0 then last V
             else if truthy_str (conf_offsetLevel cfg) then
               grouped_selection api (the (conf_offsetLevel cfg)) off cver cv V
             else if idx < 0 \<or> int (length V) \<le> idx then cv
             else V ! nat idx)"
proof -
  have e: "(of_nat n - 1 + of_int off :: rat) = of_int (int n - 1 + off)" for n by simp
  have n: "(of_nat n :: rat) = of_int (int n)" for n by simp
  show ?thesis
    unfolding selection_outcome_def Let_def assms grouped_outcome_int e
    unfolding n of_int_less_iff of_int_le_iff floor_of_int of_int_0_less_iff of_int_less_0_iff
      of_int_eq_0_iff
    by simp
qed


section \<open>Facts about the resolver\<close>

lemma filtered_of_Nil: "filtered_of api cfg [] = []"
  by (simp add: filtered_of_def)

lemma sort_cmp_Nil: "sort_cmp cmp [] = []"
  by (simp add: sort_cmp_def)

lemma selection_outcome_Nil: "selection_outcome api cv cver cfg [] = Inr cv"
  by (simp add: selection_outcome_def)

lemma getNewValue_unregistered:
  assumes "get versionings (Some (versioning cfg)) = Inl e"
  shows "getNewValue versionings reg cv rs cver cfg w = (Inl e, w)"
  using assms by (simp add: getNewValue_def)

lemma getNewValue_offset_invalid:
  assumes "get versionings (Some (versioning cfg)) = Inr api" "offset_invalid cfg"
  shows "getNewValue versionings reg cv rs cver cfg w = (Inr cv, w)"
  using assms by (simp add: getNewValue_def)

lemma getNewValue_offsetLevel_invalid:
  assumes "get versionings (Some (versioning cfg)) = Inr api" "offsetLevel_invalid cfg"
  shows "getNewValue versionings reg cv rs cver cfg w = (Inr cv, w)"
  using assms by (simp add: getNewValue_def)

lemma getNewValue_fetch:
  assumes "get versionings (Some (versioning cfg)) = Inr api"
    and "\<not> offset_invalid cfg" and "\<not> offsetLevel_invalid cfg"
    and "fetchVersions reg cfg w = (Inr versions, w')"
  shows "getNewValue versionings reg cv rs cver cfg w =
     (if releases_of versions = [] then Inr cv
      else selectVersion api cv cver cfg (releases_of versions), w')"
  using assms by (simp add: getNewValue_def)

lemma getNewValue_fetch_failed:
  assumes "get versionings (Some (versioning cfg)) = Inr api"
    and "\<not> offset_invalid cfg" and "\<not> offsetLevel_invalid cfg"
    and "fetchVersions reg cfg w = (Inl error, w')"
  shows "getNewValue versionings reg cv rs cver cfg w = (Inr cv, w')"
  using assms by (simp add: getNewValue_def)

text \<open>The result is the selection over the releases the call obtained.\<close>

lemma getNewValue_select:
  assumes g: "get versionings (Some (versioning cfg)) = Inr api"
    and o: "\<not> offset_invalid cfg" and l: "\<not> offsetLevel_invalid cfg"
  shows "fst (getNewValue versionings reg cv rs cver cfg w) =
     (if obtained_releases reg cfg w = [] then Inr cv
      else selectVersion api cv cver cfg (obtained_releases reg cfg w))"
proof -
  obtain r w' where f: "fetchVersions reg cfg w = (r, w')" by (cases "fetchVersions reg cfg w")
  show ?thesis
  proof (cases r)
    case (Inl err)
    then have "obtained_releases reg cfg w = []" using f by (simp add: obtained_releases_def)
    then show ?thesis using getNewValue_fetch_failed[OF g o l f[unfolded Inl]] by simp
  next
    case (Inr versions)
    then have "obtained_releases reg cfg w = releases_of versions"
      using f by (simp add: obtained_releases_def)
    then show ?thesis using getNewValue_fetch[OF g o l f[unfolded Inr]] by simp
  qed
qed

lemma getNewValue_cases:
  assumes g: "get versionings (Some (versioning cfg)) = Inr api"
    and o: "\<not> offset_invalid cfg" and l: "\<not> offsetLevel_invalid cfg"
  shows "fst (getNewValue versionings reg cv rs cver cfg w) = Inl SchemeError \<or>
         fst (getNewValue versionings reg cv rs cver cfg w) =
           selection_outcome api cv cver cfg (candidates api reg cfg w)"
proof (cases "obtained_releases reg cfg w = []")
  case True
  then have "candidates api reg cfg w = []"
    by (simp add: candidates_def filtered_of_Nil sort_cmp_Nil)
  then show ?thesis
    using getNewValue_select[OF g o l, of reg cv rs cver w] True
    by (simp add: selection_outcome_Nil)
next
  case False
  then show ?thesis
    using getNewValue_select[OF g o l, of reg cv rs cver w]
      selectVersion_cases[of api cv cver cfg "obtained_releases reg cfg w"]
    by (simp add: candidates_def)
qed

lemma getNewValue_total:
  assumes g: "get versionings (Some (versioning cfg)) = Inr api"
    and o: "\<not> offset_invalid cfg" and l: "\<not> offsetLevel_invalid cfg"
    and sr: "scheme_returns api"
  shows "fst (getNewValue versionings reg cv rs cver cfg w) =
           selection_outcome api cv cver cfg (candidates api reg cfg w)"
proof (cases "obtained_releases reg cfg w = []")
  case True
  then have "candidates api reg cfg w = []"
    by (simp add: candidates_def filtered_of_Nil sort_cmp_Nil)
  then show ?thesis
    using getNewValue_select[OF g o l, of reg cv rs cver w] True
    by (simp add: selection_outcome_Nil)
next
  case False
  then show ?thesis
    using getNewValue_select[OF g o l, of reg cv rs cver w]
      selectVersion_total[OF sr, of cv cver cfg "obtained_releases reg cfg w"]
    by (simp add: candidates_def)
qed

text \<open>
  With a scheme that returns and an integer offset the result is a string,
  and it is the value the selection describes.
\<close>

lemma getNewValue_eq:
  assumes g: "get versionings (Some (versioning cfg)) = Inr api"
    and o: "\<not> offset_invalid cfg" and l: "\<not> offsetLevel_invalid cfg"
    and sr: "scheme_returns api"
    and e: "effective_offset cfg = of_int off"
  shows "fst (getNewValue versionings reg cv rs cver cfg w) =
     Inr (let V = candidates api reg cfg w;
              idx = int (length V) - 1 + off
          in if V = [] then cv
             else if off = 0 then last V
             else if truthy_str (conf_offsetLevel cfg) then
               grouped_selection api (the (conf_offsetLevel cfg)) off cver cv V
             else if idx < 0 \<or> int (length V) \<le> idx then cv
             else V ! nat idx)"
  unfolding getNewValue_total[OF g o l sr] selection_outcome_int[OF e] Let_def by simp

lemma getNewValue_returns_string:
  assumes "scheme_returns api" and "effective_offset cfg = of_int off"
    and "get versionings (Some (versioning cfg)) = Inr api"
  shows "\<exists>s. fst (getNewValue versionings reg cv rs cver cfg w) = Inr s"
proof (cases "offset_invalid cfg \<or> offsetLevel_invalid cfg")
  case True
  then show ?thesis
    using getNewValue_offset_invalid[OF assms(3)] getNewValue_offsetLevel_invalid[OF assms(3)]
    by auto
next
  case False
  then show ?thesis using getNewValue_eq[OF assms(3) _ _ assms(1) assms(2)] by simp
qed



lemma getNewValue_in_candidates:
  assumes g: "get versionings (Some (versioning cfg)) = Inr api"
    and r: "fst (getNewValue versionings reg cv rs cver cfg w) = Inr s"
    and ne: "s \<noteq> cv"
  shows "s \<in> set (candidates api reg cfg w)"
proof -
  have o: "\<not> offset_invalid cfg"
    using getNewValue_offset_invalid[OF g, of reg cv rs cver w] r ne by auto
  have l: "\<not> offsetLevel_invalid cfg"
    using getNewValue_offsetLevel_invalid[OF g, of reg cv rs cver w] r ne by auto
  have "selection_outcome api cv cver cfg (candidates api reg cfg w) = Inr s"
    using getNewValue_cases[OF g o l, of reg cv rs cver w] r by auto
  then show ?thesis using ne by (rule selection_outcome_member)
qed

text \<open>The fetch stage.\<close>

lemma fetch_hit:
  assumes "truthy_str (datasource cfg)" "truthy_str (packageName cfg)"
    and "memCache_get w cacheNamespace
           (cacheKey (datasource cfg) (packageName cfg) (versioning cfg)) = Some r"
  shows "fetchVersions reg cfg w = (Inr (Some r), w)"
  using assms by (simp add: fetchVersions_def)

lemma fetch_miss:
  assumes "truthy_str (datasource cfg)" "truthy_str (packageName cfg)"
    and "memCache_get w cacheNamespace
           (cacheKey (datasource cfg) (packageName cfg) (versioning cfg)) = None"
    and "reg (length (calls w))
           (PkgArgs (show_str (datasource cfg)) (show_str (packageName cfg)) (versioning cfg)) =
         Inr (Some r)"
  shows "fetchVersions reg cfg w =
     (Inr (Some r),
      if releases_of (Some r) \<noteq> [] then
        memCache_set
          (w\<lparr>calls := calls w @
             [PkgArgs (show_str (datasource cfg)) (show_str (packageName cfg)) (versioning cfg)]\<rparr>)
          cacheNamespace (cacheKey (datasource cfg) (packageName cfg) (versioning cfg)) r 15
      else w\<lparr>calls := calls w @
             [PkgArgs (show_str (datasource cfg)) (show_str (packageName cfg)) (versioning cfg)]\<rparr>)"
  using assms by (simp add: fetchVersions_def call_registry_def)

lemma fetch_miss_empty:
  assumes "truthy_str (datasource cfg)" "truthy_str (packageName cfg)"
    and "memCache_get w cacheNamespace
           (cacheKey (datasource cfg) (packageName cfg) (versioning cfg)) = None"
    and "reg (length (calls w))
           (PkgArgs (show_str (datasource cfg)) (show_str (packageName cfg)) (versioning cfg)) =
         Inr versions"
    and "releases_of versions = []"
  shows "fetchVersions reg cfg w =
     (Inr versions,
      w\<lparr>calls := calls w @
             [PkgArgs (show_str (datasource cfg)) (show_str (packageName cfg)) (versioning cfg)]\<rparr>)"
  using assms by (cases versions) (auto simp: fetchVersions_def call_registry_def)

lemma fetch_miss_failed:
  assumes "truthy_str (datasource cfg)" "truthy_str (packageName cfg)"
    and "memCache_get w cacheNamespace
           (cacheKey (datasource cfg) (packageName cfg) (versioning cfg)) = None"
    and "reg (length (calls w))
           (PkgArgs (show_str (datasource cfg)) (show_str (packageName cfg)) (versioning cfg)) =
         Inl error"
  shows "fetchVersions reg cfg w =
     (Inl error,
      w\<lparr>calls := calls w @
             [PkgArgs (show_str (datasource cfg)) (show_str (packageName cfg)) (versioning cfg)]\<rparr>)"
  using assms by (simp add: fetchVersions_def call_registry_def)

lemma fetch_no_package:
  assumes "\<not> truthy_str (datasource cfg) \<or> \<not> truthy_str (packageName cfg)"
  shows "fetchVersions reg cfg w = (reg (length (calls w)) NoArgs, w\<lparr>calls := calls w @ [NoArgs]\<rparr>)"
  using assms by (auto simp: fetchVersions_def call_registry_def)

lemma memCache_get_fresh:
  assumes "cache w_later (ns, key) = Some (r, expiresAt)" "now w_later < expiresAt"
  shows "memCache_get w_later ns key = Some r"
  using assms by (simp add: memCache_get_def)

lemma getNewValue_no_package:
  assumes g: "get versionings (Some (versioning cfg)) = Inr api"
    and o: "\<not> offset_invalid cfg" and l: "\<not> offsetLevel_invalid cfg"
    and n: "\<not> truthy_str (datasource cfg) \<or> \<not> truthy_str (packageName cfg)"
  shows "snd (getNewValue versionings reg cv rs cver cfg w) = w\<lparr>calls := calls w @ [NoArgs]\<rparr>"
proof (cases "reg (length (calls w)) NoArgs")
  case (Inl error)
  then show ?thesis
    using getNewValue_fetch_failed[OF g o l, of reg w error] fetch_no_package[OF n, of reg w] by simp
next
  case (Inr versions)
  then show ?thesis
    using getNewValue_fetch[OF g o l, of reg w versions] fetch_no_package[OF n, of reg w] by simp
qed


section \<open>Siblings of the current version\<close>

text \<open>
  The key filter reads the components back from the key string. For
  components that are written in plain decimal the round trip is exact, and
  the keys the filter keeps are those of the current version's siblings.
\<close>

lemma strict_eq_num_eq: "strict_eq_num a b \<Longrightarrow> a = b"
  by (cases a) (simp_all add: strict_eq_num_def)

lemma split_key_first:
  assumes "plain_component a"
  shows "js_index (split_on CHR ''.'' (show_num a @ ''.'' @ rest)) 0 = Some (show_num a)"
  using split_on_append[OF dot_notin_show_num[OF assms], of rest] by (simp add: js_index_0)

lemma split_key_second:
  assumes "plain_component a" "plain_component b"
  shows "js_index (split_on CHR ''.'' (show_num a @ ''.'' @ show_num b @ ''.'' @ rest)) 1 =
           Some (show_num b)"
proof -
  have "split_on CHR ''.'' (show_num a @ ''.'' @ show_num b @ ''.'' @ rest) =
        show_num a # split_on CHR ''.'' (show_num b @ CHR ''.'' # rest)"
    using split_on_append[OF dot_notin_show_num[OF assms(1)], of "show_num b @ ''.'' @ rest"] by simp
  also have "\<dots> = show_num a # show_num b # split_on CHR ''.'' rest"
    using split_on_append[OF dot_notin_show_num[OF assms(2)], of rest] by simp
  finally show ?thesis by (simp add: js_index_1)
qed

lemma same_major_key:
  assumes p: "plain_component a"
    and s: "same_major api cver (show_num a @ ''.'' @ rest)"
  shows "a = getMajor api cver"
proof -
  have "strict_eq_num (parseInt_opt (Some (show_num a))) (getMajor api cver)"
    using s unfolding same_major_def split_key_first[OF p] .
  then show ?thesis
    using strict_eq_num_eq by (simp add: parseInt_opt_def parseInt_show_num[OF p])
qed

lemma same_major_minor_key:
  assumes pa: "plain_component a" and pb: "plain_component b"
    and s: "same_major_minor api cver (show_num a @ ''.'' @ show_num b @ ''.'' @ rest)"
  shows "a = getMajor api cver \<and> b = getMinor api cver"
proof -
  have 1: "strict_eq_num (parseInt_opt (Some (show_num a))) (getMajor api cver)"
    using s unfolding same_major_minor_def split_key_first[OF pa] by simp
  have 2: "strict_eq_num (parseInt_opt (Some (show_num b))) (getMinor api cver)"
    using s unfolding same_major_minor_def split_key_second[OF pa pb] by simp
  from 1 2 show ?thesis
    using strict_eq_num_eq by (simp add: parseInt_opt_def parseInt_show_num[OF pa] parseInt_show_num[OF pb])
qed

lemma grouped_selection_sibling:
  assumes ne: "grouped_selection api level off cver cv V \<noteq> cv"
    and plain: "\<forall>v \<in> set V. plain_component (getMajor api v) \<and> plain_component (getMinor api v)"
  shows "(level = ''minor'' \<longrightarrow>
            getMajor api (grouped_selection api level off cver cv V) = getMajor api cver) \<and>
         (level = ''patch'' \<longrightarrow>
            getMajor api (grouped_selection api level off cver cv V) = getMajor api cver \<and>
            getMinor api (grouped_selection api level off cver cv V) = getMinor api cver)"
proof -
  let ?s = "grouped_selection api level off cver cv V"
  from grouped_selection_cases[of api level off cver cv V] ne
  obtain k ms where kin: "k \<in> set (siblings_of api level cver
                 (keys_of (groups_of V api level) api))"
    and m: "(k, ms) \<in> set (groups_of V api level)"
    and eq: "?s = last ms" by blast
  from groups_members[OF m] have "ms \<noteq> []" and all: "\<forall>m\<in>set ms. group_key_of api level m = Some k" by auto
  then have gk: "group_key_of api level ?s = Some k" using eq last_in_set by metis
  have "?s \<in> set V" using ne by (rule grouped_selection_member)
  then have pa: "plain_component (getMajor api ?s)" and pb: "plain_component (getMinor api ?s)"
    using plain by auto
  have minor: "getMajor api ?s = getMajor api cver" if lv: "level = ''minor''"
  proof -
    have k: "k = show_num (getMajor api ?s) @ ''.'' @ show_num (getMinor api ?s)"
      using gk lv by (simp add: group_key_of_def)
    have "same_major api cver k" using kin lv by (simp add: siblings_of_def)
    then show ?thesis unfolding k by (rule same_major_key[OF pa])
  qed
  have patch: "getMajor api ?s = getMajor api cver \<and> getMinor api ?s = getMinor api cver"
    if lv: "level = ''patch''"
  proof -
    have k: "k = show_num (getMajor api ?s) @ ''.'' @ show_num (getMinor api ?s) @ ''.'' @
                 show_num (getPatch api ?s)"
      using gk lv by (simp add: group_key_of_def)
    have "same_major_minor api cver k" using kin lv by (simp add: siblings_of_def)
    then show ?thesis unfolding k by (rule same_major_minor_key[OF pa pb])
  qed
  show ?thesis using minor patch by blast
qed

text \<open>
  So a grouped resolution with an integer offset stays with the siblings of
  the current version whenever the major and minor components of the
  candidates are below \<open>10^21\<close> in absolute value.
\<close>

lemma grouped_result_sibling_when_plain:
  assumes g: "get versionings (Some (versioning cfg)) = Inr api"
    and lv: "conf_offsetLevel cfg = Some level"
    and off: "conf_offset cfg = Some (of_int off)"
    and nz: "off \<noteq> 0"
    and plain: "\<forall>v \<in> set (candidates api reg cfg w).
                  plain_component (getMajor api v) \<and> plain_component (getMinor api v)"
    and r: "fst (getNewValue versionings reg cv rs cver cfg w) = Inr s"
    and ne: "s \<noteq> cv"
  shows "(level = ''minor'' \<longrightarrow> getMajor api s = getMajor api cver) \<and>
         (level = ''patch'' \<longrightarrow>
            getMajor api s = getMajor api cver \<and> getMinor api s = getMinor api cver)"
proof (cases "level \<in> {''major'', ''minor'', ''patch''}")
  case False
  then show ?thesis by simp
next
  case True
  define V where "V = candidates api reg cfg w"
  have o: "\<not> offset_invalid cfg"
    using getNewValue_offset_invalid[OF g, of reg cv rs cver w] r ne by auto
  have l: "\<not> offsetLevel_invalid cfg"
    using getNewValue_offsetLevel_invalid[OF g, of reg cv rs cver w] r ne by auto
  have t: "truthy_str (conf_offsetLevel cfg)" using lv True by (auto simp: truthy_str_def)
  have e: "effective_offset cfg = of_int off" using off by (simp add: effective_offset_def)
  have "selection_outcome api cv cver cfg V = Inr s"
    using getNewValue_cases[OF g o l, of reg cv rs cver w] r unfolding V_def by auto
  then have s: "s = grouped_selection api level off cver cv V"
    using ne t lv nz unfolding selection_outcome_int[OF e] Let_def by (auto split: if_splits)
  show ?thesis
    using grouped_selection_sibling[of api level off cver cv V] ne plain
    unfolding s[symmetric] V_def[symmetric] by blast
qed


section \<open>The scenarios, evaluated\<close>

lemma get_semver: "get known_versionings (Some ''semver'') = Inr semver_api"
  by (simp add: get_def known_versionings_def)

lemma get_strict: "get known_versionings (Some ''semver-strict'') = Inr strict_semver_api"
  by (simp add: get_def known_versionings_def)

lemma scheme_returns_semver: "scheme_returns semver_api"
  by (simp add: scheme_returns_def semver_api_def)

lemma semver_nums_s1:
  "semver_nums ''1.0.0'' = Some [1, 0, 0]" "semver_nums ''1.1.0'' = Some [1, 1, 0]"
  "semver_nums ''2.0.0'' = Some [2, 0, 0]" "semver_nums ''2.1.0'' = Some [2, 1, 0]"
  "semver_nums ''3.0.0'' = Some [3, 0, 0]" "semver_nums ''3.1.0'' = Some [3, 1, 0]"
  by (simp_all add: semver_nums_def is_digit_def)

lemma semver_stable_s1:
  "semver_stable ''1.0.0''" "semver_stable ''1.1.0''" "semver_stable ''2.0.0''"
  "semver_stable ''2.1.0''" "semver_stable ''3.0.0''" "semver_stable ''3.1.0''"
  by (simp_all add: semver_stable_def)

lemma filter_s1:
  "filtered_of semver_api (mk_config ds pkg off level) (map rel scenario1_versions) = scenario1_versions"
  by (simp add: filtered_of_def mk_config_def conf_ignorePrerelease_def scenario1_versions_def
      rel_def semver_api_def semver_nums_s1 semver_stable_s1)

lemma sort_s1: "sort_cmp semver_compare scenario1_versions = scenario1_versions"
  by (simp add: sort_cmp_def scenario1_versions_def semver_compare_def semver_nums_s1 semver_stable_s1)

lemma digit_chars:
  "digit_char 0 = CHR ''0''" "digit_char 1 = CHR ''1''" "digit_char 2 = CHR ''2''"
  "digit_char 3 = CHR ''3''" "digit_char 5 = CHR ''5''" "digit_char (Suc 0) = CHR ''1''"
  by code_simp+

lemma show_num_small:
  "show_num (Some 0) = ''0''" "show_num (Some 1) = ''1''" "show_num (Some 2) = ''2''"
  "show_num (Some 3) = ''3''" "show_num (Some 5) = ''5''"
  by (simp_all add: show_num_def show_int_def show_nat_def digits_of.simps digit_chars)

lemma semver_component_s1:
  "semver_component 0 ''1.0.0'' = Some 1" "semver_component 0 ''1.1.0'' = Some 1"
  "semver_component 0 ''2.0.0'' = Some 2" "semver_component 0 ''2.1.0'' = Some 2"
  "semver_component 0 ''3.0.0'' = Some 3" "semver_component 0 ''3.1.0'' = Some 3"
  by (simp_all add: semver_component_def semver_nums_s1)

lemma groups_s1:
  "groups_of scenario1_versions semver_api ''major'' =
     [(''1'', [''1.0.0'', ''1.1.0'']), (''2'', [''2.0.0'', ''2.1.0'']), (''3'', [''3.0.0'', ''3.1.0''])]"
  by (simp add: groups_of_def scenario1_versions_def semver_api_def group_key_of_def
      semver_nums_s1 semver_component_s1 show_num_small sort_group_of_def sort_cmp_def
      semver_compare_def semver_stable_s1)

lemma keys_s1:
  "keys_of [(''1'', [''1.0.0'', ''1.1.0'']), (''2'', [''2.0.0'', ''2.1.0'']), (''3'', [''3.0.0'', ''3.1.0''])]
     semver_api = [''1'', ''2'', ''3'']"
  by (simp add: keys_of_def object_keys_def is_array_index_def is_digit_def sort_cmp_def
      group_latest_def semver_api_def semver_compare_def semver_nums_s1 semver_stable_s1)


lemma conf_mk_config:
  "conf_offset (mk_config ds pkg off level) = off"
  "conf_offsetLevel (mk_config ds pkg off level) = level"
  "versioning (mk_config ds pkg off level) = ''semver''"
  "datasource (mk_config ds pkg off level) = Some ds"
  "packageName (mk_config ds pkg off level) = Some pkg"
  by (simp_all add: mk_config_def conf_offset_def conf_offsetLevel_def)

lemma get_mk_config:
  "get known_versionings (Some (versioning (mk_config ds pkg off level))) = Inr semver_api"
  by (simp add: conf_mk_config get_semver)

lemma memCache_get_empty: "memCache_get empty_world ns key = None"
  by (simp add: memCache_get_def empty_world_def)

lemma obtained_from_const:
  assumes "truthy_str (datasource cfg)" "truthy_str (packageName cfg)"
  shows "obtained_releases (const_registry vs) cfg empty_world = map rel vs"
  using assms
  by (simp add: obtained_releases_def fetchVersions_def memCache_get_empty call_registry_def
      const_registry_def releases_of_def result_of_def)

lemma truthy_mk_config:
  "ds \<noteq> [] \<Longrightarrow> truthy_str (datasource (mk_config ds pkg off level))"
  "pkg \<noteq> [] \<Longrightarrow> truthy_str (packageName (mk_config ds pkg off level))"
  by (simp_all add: conf_mk_config truthy_str_def)

lemma obtained_const:
  assumes "ds \<noteq> []" "pkg \<noteq> []"
  shows "obtained_releases (const_registry vs) (mk_config ds pkg off level) empty_world = map rel vs"
  by (rule obtained_from_const) (use assms in \<open>simp_all add: truthy_mk_config\<close>)

lemma semver_api_sel:
  "sortVersions semver_api = semver_compare"
  "getMajor semver_api = semver_component 0"
  "getMinor semver_api = semver_component 1"
  "isStable semver_api = semver_stable"
  by (simp_all add: semver_api_def)

lemma candidates_s1:
  "candidates semver_api (const_registry scenario1_versions) (mk_config ''npm'' ''pkg'' off level)
     empty_world = scenario1_versions"
proof -
  have "obtained_releases (const_registry scenario1_versions) (mk_config ''npm'' ''pkg'' off level)
          empty_world = map rel scenario1_versions"
    by (rule obtained_const) simp_all
  then show ?thesis
    by (simp add: candidates_def filter_s1 semver_api_sel sort_s1)
qed


lemma scenario1_nonempty: "scenario1_versions \<noteq> []" "length scenario1_versions = 6"
  by (simp_all add: scenario1_versions_def)

lemma effective_mk_config:
  "effective_offset (mk_config ds pkg (Some n) level) = n"
  "effective_offset (mk_config ds pkg None level) = 0"
  by (simp_all add: effective_offset_def conf_mk_config)

lemma effective_minus_one:
  "effective_offset (mk_config ds pkg (Some (- 1)) level) = of_int (- 1)"
  by (simp add: effective_mk_config)

lemma valid_mk_config:
  "n \<le> 0 \<Longrightarrow> \<not> offset_invalid (mk_config ds pkg (Some n) level)"
  "\<not> offsetLevel_invalid (mk_config ds pkg off None)"
  "\<not> offsetLevel_invalid (mk_config ds pkg off (Some ''major''))"
  "\<not> offsetLevel_invalid (mk_config ds pkg off (Some ''minor''))"
  by (simp_all add: offset_invalid_def offsetLevel_invalid_def conf_mk_config truthy_str_def)

lemma eval_flat_s1:
  "fst (getNewValue known_versionings (const_registry scenario1_versions) cv rs cver
         (mk_config ''npm'' ''pkg'' (Some (- 1)) None) empty_world) = Inr ''3.0.0''"
proof -
  have "fst (getNewValue known_versionings (const_registry scenario1_versions) cv rs cver
         (mk_config ''npm'' ''pkg'' (Some (- 1)) None) empty_world) =
        Inr (scenario1_versions ! 4)"
    using getNewValue_eq[where versionings = known_versionings and api = semver_api
        and cfg = "mk_config ''npm'' ''pkg'' (Some (- 1)) None"
        and reg = "const_registry scenario1_versions" and w = empty_world,
        OF get_mk_config valid_mk_config(1) valid_mk_config(2) scheme_returns_semver
          effective_minus_one, of cv rs cver]
    by (simp add: candidates_s1 conf_mk_config truthy_str_def scenario1_nonempty)
  then show ?thesis by (simp add: scenario1_versions_def)
qed

lemma semver_component1_s1:
  "semver_component (Suc 0) ''1.0.0'' = Some 0" "semver_component (Suc 0) ''1.1.0'' = Some 1"
  "semver_component (Suc 0) ''2.0.0'' = Some 0" "semver_component (Suc 0) ''2.1.0'' = Some 1"
  "semver_component (Suc 0) ''3.0.0'' = Some 0" "semver_component (Suc 0) ''3.1.0'' = Some 1"
  by (simp_all add: semver_component_def semver_nums_s1)

lemma groups_minor_s1:
  "groups_of scenario1_versions semver_api ''minor'' =
     [(''1.0'', [''1.0.0'']), (''1.1'', [''1.1.0'']), (''2.0'', [''2.0.0'']),
      (''2.1'', [''2.1.0'']), (''3.0'', [''3.0.0'']), (''3.1'', [''3.1.0''])]"
  by (simp add: groups_of_def scenario1_versions_def semver_api_def group_key_of_def
      semver_nums_s1 semver_component_s1 semver_component1_s1 show_num_small sort_group_of_def)

lemma keys_minor_s1:
  "keys_of [(''1.0'', [''1.0.0'']), (''1.1'', [''1.1.0'']), (''2.0'', [''2.0.0'']),
      (''2.1'', [''2.1.0'']), (''3.0'', [''3.0.0'']), (''3.1'', [''3.1.0''])] semver_api =
     [''1.0'', ''1.1'', ''2.0'', ''2.1'', ''3.0'', ''3.1'']"
  by (simp add: keys_of_def object_keys_def is_array_index_def is_digit_def sort_cmp_def
      group_latest_def semver_api_sel semver_compare_def semver_nums_s1 semver_stable_s1)

lemma parseInt_small: "parseInt ''1'' = Some 1" "parseInt ''2'' = Some 2" "parseInt ''3'' = Some 3"
  by (simp_all add: parseInt_def is_space_def is_digit_def)

lemma filter_minor_s1:
  "siblings_of semver_api ''minor'' ''3.1.0'' [''1.0'', ''1.1'', ''2.0'', ''2.1'', ''3.0'', ''3.1''] =
     [''3.0'', ''3.1'']"
  by (simp add: siblings_of_def same_major_def js_index_0 parseInt_opt_def parseInt_small
      strict_eq_num_def semver_api_sel semver_component_s1)

lemma grouped_minor_s1:
  "grouped_selection semver_api ''minor'' (- 1) ''3.1.0'' ''3.1.0'' scenario1_versions = ''3.0.0''"
  by (simp add: grouped_selection_def groups_minor_s1 keys_minor_s1 filter_minor_s1)


lemma eval_minor_s1:
  "fst (getNewValue known_versionings (const_registry scenario1_versions) ''3.1.0'' rs ''3.1.0''
         (mk_config ''npm'' ''pkg'' (Some (- 1)) (Some ''minor'')) empty_world) = Inr ''3.0.0''"
  using getNewValue_eq[where versionings = known_versionings and api = semver_api
        and cfg = "mk_config ''npm'' ''pkg'' (Some (- 1)) (Some ''minor'')"
        and reg = "const_registry scenario1_versions" and w = empty_world,
        OF get_mk_config valid_mk_config(1) valid_mk_config(4) scheme_returns_semver
          effective_minus_one, of "''3.1.0''" rs "''3.1.0''"]
  by (simp add: candidates_s1 conf_mk_config truthy_str_def scenario1_nonempty grouped_minor_s1)

lemma fetch_empty_registry:
  assumes "cache w = (\<lambda>k. None)"
  shows "fetchVersions (const_registry []) (mk_config ''npm'' ''pkg'' None None) w =
      (Inr (Some (result_of [])), w\<lparr>calls := calls w @ [PkgArgs ''npm'' ''pkg'' ''semver'']\<rparr>)"
proof -
  let ?cfg = "mk_config ''npm'' ''pkg'' None None"
  have d: "truthy_str (datasource ?cfg)" by (rule truthy_mk_config) simp
  have p: "truthy_str (packageName ?cfg)" by (rule truthy_mk_config) simp
  have m: "memCache_get w cacheNamespace
             (cacheKey (datasource ?cfg) (packageName ?cfg) (versioning ?cfg)) = None"
    using assms by (simp add: memCache_get_def)
  have r: "const_registry [] (length (calls w))
             (PkgArgs (show_str (datasource ?cfg)) (show_str (packageName ?cfg)) (versioning ?cfg)) =
           Inr (Some (result_of []))"
    by (simp add: const_registry_def)
  show ?thesis
    using fetch_miss[where reg = "const_registry []", OF d p m r]
    by (simp add: conf_mk_config show_str_def releases_of_def result_of_def)
qed

lemma call_empty_registry:
  assumes "cache w = (\<lambda>k. None)"
  shows "getNewValue known_versionings (const_registry []) ''1.0.0'' ''auto'' ''1.0.0''
     (mk_config ''npm'' ''pkg'' None None) w =
   (Inr ''1.0.0'', w\<lparr>calls := calls w @ [PkgArgs ''npm'' ''pkg'' ''semver'']\<rparr>)"
proof -
  let ?cfg = "mk_config ''npm'' ''pkg'' None None"
  have o: "\<not> offset_invalid ?cfg" by (simp add: offset_invalid_def conf_mk_config)
  show ?thesis
    using getNewValue_fetch[OF get_mk_config o valid_mk_config(2) fetch_empty_registry[OF assms]]
    by (simp add: releases_of_def result_of_def)
qed

text \<open>An offset of one half, at a level and without one.\<close>

lemma half_not_integer: "of_int \<lfloor>(of_int n - 1 / 2 :: rat)\<rfloor> \<noteq> (of_int n - 1 / 2 :: rat)"
proof
  assume "of_int \<lfloor>(of_int n - 1 / 2 :: rat)\<rfloor> = (of_int n - 1 / 2 :: rat)"
  then have "rat_of_int (\<lfloor>(of_int n - 1 / 2 :: rat)\<rfloor> * 2) = rat_of_int (2 * n - 1)"
    by (simp add: field_simps)
  then have "\<lfloor>(of_int n - 1 / 2 :: rat)\<rfloor> * 2 = 2 * n - 1" by (simp only: of_int_eq_iff)
  then show False by presburger
qed

lemma grouped_half_s1:
  "grouped_outcome semver_api ''major'' (- 1 / 2) ''3.1.0'' ''3.1.0'' scenario1_versions =
     Inl TypeError"
proof -
  have sib: "siblings_of semver_api ''major'' ''3.1.0'' [''1'', ''2'', ''3''] = [''1'', ''2'', ''3'']"
    by (simp add: siblings_of_def)
  have idx: "(of_nat (length [''1'', ''2'', ''3'']) - 1 + (- 1 / 2) :: rat) = of_int 2 - 1 / 2"
    by simp
  have none: "map_of [(''1'', [''1.0.0'', ''1.1.0'']), (''2'', [''2.0.0'', ''2.1.0'']),
                      (''3'', [''3.0.0'', ''3.1.0''])] ''undefined'' = None"
    by simp
  have r: "\<not> (of_int 2 - 1 / 2 :: rat) < 0" "\<not> of_nat (length [''1'', ''2'', ''3'']) \<le> (of_int 2 - 1 / 2 :: rat)"
    by simp_all
  show ?thesis
    unfolding grouped_outcome_def groups_s1 keys_s1 sib Let_def idx
    by (simp only: r half_not_integer none if_False option.case list.distinct simp_thms)
qed

lemma eval_half_grouped:
  "fst (getNewValue known_versionings (const_registry scenario1_versions) ''3.1.0'' rs ''3.1.0''
         (mk_config ''npm'' ''pkg'' (Some (- 1 / 2)) (Some ''major'')) empty_world) = Inl TypeError"
proof -
  let ?cfg = "mk_config ''npm'' ''pkg'' (Some (- 1 / 2)) (Some ''major'')"
  have o: "\<not> offset_invalid ?cfg" by (rule valid_mk_config) simp
  have r: "(- 1 / 2 :: rat) \<noteq> 0" "truthy_str (Some ''major'')"
    by (simp_all add: truthy_str_def)
  have "selection_outcome semver_api ''3.1.0'' ''3.1.0'' ?cfg scenario1_versions = Inl TypeError"
    unfolding selection_outcome_def effective_mk_config conf_mk_config Let_def
    by (simp only: r scenario1_nonempty grouped_half_s1 option.sel if_False if_True simp_thms)
  then show ?thesis
    unfolding getNewValue_total[OF get_mk_config o valid_mk_config(3) scheme_returns_semver]
      candidates_s1 .
qed

lemma flat_half_s1:
  "selection_outcome semver_api ''3.1.0'' ''3.1.0'' (mk_config ''npm'' ''pkg'' (Some (- 1 / 2)) None)
     scenario1_versions = Inl NotAString"
proof -
  have idx: "(of_nat 6 - 1 + (- 1 / 2) :: rat) = of_int 5 - 1 / 2"
    by simp
  have r: "\<not> (of_int 5 - 1 / 2 :: rat) < 0"
    "\<not> of_nat 6 \<le> (of_int 5 - 1 / 2 :: rat)"
    "(- 1 / 2 :: rat) \<noteq> 0" "\<not> truthy_str None"
    by (simp_all add: truthy_str_def)
  show ?thesis
    unfolding selection_outcome_def effective_mk_config conf_mk_config Let_def
      scenario1_nonempty(2) idx
    by (simp only: r half_not_integer scenario1_nonempty(1) if_False simp_thms)
qed

lemma eval_half_flat:
  "fst (getNewValue known_versionings (const_registry scenario1_versions) ''3.1.0'' rs ''3.1.0''
         (mk_config ''npm'' ''pkg'' (Some (- 1 / 2)) None) empty_world) = Inl NotAString"
proof -
  let ?cfg = "mk_config ''npm'' ''pkg'' (Some (- 1 / 2)) None"
  have o: "\<not> offset_invalid ?cfg" by (rule valid_mk_config) simp
  show ?thesis
    unfolding getNewValue_total[OF get_mk_config o valid_mk_config(2) scheme_returns_semver]
      candidates_s1
    by (rule flat_half_s1)
qed


text \<open>Versions with the major component \<open>10^21\<close>, grouped at level \<open>minor\<close>.\<close>

lemma semver_nums_huge:
  "semver_nums ''1000000000000000000000.0.0'' = Some [1000000000000000000000, 0, 0]"
  "semver_nums ''1000000000000000000000.1.0'' = Some [1000000000000000000000, 1, 0]"
  by (simp_all add: semver_nums_def is_digit_def)

lemma semver_stable_huge:
  "semver_stable ''1000000000000000000000.0.0''" "semver_stable ''1000000000000000000000.1.0''"
  by (simp_all add: semver_stable_def)

lemma semver_component_huge:
  "semver_component 0 ''1000000000000000000000.0.0'' = Some 1000000000000000000000"
  "semver_component 0 ''1000000000000000000000.1.0'' = Some 1000000000000000000000"
  "semver_component (Suc 0) ''1000000000000000000000.0.0'' = Some 0"
  "semver_component (Suc 0) ''1000000000000000000000.1.0'' = Some 1"
  by (simp_all add: semver_component_def semver_nums_huge)

lemma digits_huge: "digits_of 1000000000000000000000 = ''1000000000000000000000''"
  by (simp add: digits_of.simps digit_chars)

lemma show_num_huge: "show_num (Some 1000000000000000000000) = ''1e+21''"
  by (simp add: show_num_def show_int_def show_nat_def show_exponent_def digits_huge
      strip_trailing_zeros_def digits_of.simps digit_chars)

lemma parseInt_huge: "parseInt ''1e+21'' = Some 1"
  by (simp add: parseInt_def is_space_def is_digit_def)

lemma filter_huge:
  "filtered_of semver_api (mk_config ds pkg off level) (map rel huge_versions) = huge_versions"
  by (simp add: filtered_of_def mk_config_def conf_ignorePrerelease_def huge_versions_def
      rel_def semver_api_def semver_nums_s1 semver_nums_huge semver_stable_s1 semver_stable_huge)

lemma sort_huge: "sort_cmp semver_compare huge_versions = huge_versions"
  by (simp add: sort_cmp_def huge_versions_def semver_compare_def semver_nums_s1 semver_nums_huge
      semver_stable_s1 semver_stable_huge)

lemma candidates_huge:
  "candidates semver_api (const_registry huge_versions) (mk_config ''npm'' ''pkg'' off level)
     empty_world = huge_versions"
proof -
  have "obtained_releases (const_registry huge_versions) (mk_config ''npm'' ''pkg'' off level)
          empty_world = map rel huge_versions"
    by (rule obtained_const) simp_all
  then show ?thesis
    by (simp add: candidates_def filter_huge semver_api_sel sort_huge)
qed

lemma groups_huge:
  "groups_of huge_versions semver_api ''minor'' =
     [(''1.0'', [''1.0.0'']), (''1e+21.0'', [''1000000000000000000000.0.0'']),
      (''1e+21.1'', [''1000000000000000000000.1.0''])]"
  by (simp add: groups_of_def huge_versions_def semver_api_def group_key_of_def
      semver_nums_s1 semver_nums_huge semver_component_s1 semver_component1_s1
      semver_component_huge show_num_small show_num_huge sort_group_of_def)

lemma keys_huge:
  "keys_of [(''1.0'', [''1.0.0'']), (''1e+21.0'', [''1000000000000000000000.0.0'']),
      (''1e+21.1'', [''1000000000000000000000.1.0''])] semver_api =
     [''1.0'', ''1e+21.0'', ''1e+21.1'']"
  by (simp add: keys_of_def object_keys_def is_array_index_def is_digit_def sort_cmp_def
      group_latest_def semver_api_sel semver_compare_def semver_nums_s1 semver_nums_huge
      semver_stable_s1 semver_stable_huge)

text \<open>
  The filter keeps the two keys of major \<open>10^21\<close> for the current version
  \<open>1.0.0\<close>: \<^verbatim>\<open>parseInt\<close> stops at the \<open>e\<close> of \<open>1e+21\<close> and reads 1.
\<close>

lemma siblings_huge:
  "siblings_of semver_api ''minor'' ''1.0.0'' [''1.0'', ''1e+21.0'', ''1e+21.1''] =
     [''1.0'', ''1e+21.0'', ''1e+21.1'']"
  by (simp add: siblings_of_def same_major_def js_index_0 parseInt_opt_def parseInt_small
      parseInt_huge strict_eq_num_def semver_api_sel semver_component_s1)

lemma grouped_huge:
  "grouped_selection semver_api ''minor'' (- 1) ''1.0.0'' ''1.0.0'' huge_versions =
     ''1000000000000000000000.0.0''"
  by (simp add: grouped_selection_def groups_huge keys_huge siblings_huge)

lemma huge_nonempty: "huge_versions \<noteq> []"
  by (simp add: huge_versions_def)

lemma eval_huge:
  "fst (getNewValue known_versionings (const_registry huge_versions) ''1.0.0'' rs ''1.0.0''
         (mk_config ''npm'' ''pkg'' (Some (- 1)) (Some ''minor'')) empty_world) =
     Inr ''1000000000000000000000.0.0''"
  using getNewValue_eq[where versionings = known_versionings and api = semver_api
        and cfg = "mk_config ''npm'' ''pkg'' (Some (- 1)) (Some ''minor'')"
        and reg = "const_registry huge_versions" and w = empty_world,
        OF get_mk_config valid_mk_config(1) valid_mk_config(4) scheme_returns_semver
          effective_minus_one, of "''1.0.0''" rs "''1.0.0''"]
  by (simp add: candidates_huge conf_mk_config truthy_str_def huge_nonempty grouped_huge)

text \<open>
  The scheme \<open>semver-strict\<close> and a current version that is not a version:
  the filter, the sort and the grouping return, and the read of the current
  version's major component throws.
\<close>

lemma strict_sel:
  "isValid strict_semver_api = (\<lambda>v. Some (semver_nums v \<noteq> None))"
  "isVersion strict_semver_api = (\<lambda>v. semver_nums v \<noteq> None)"
  "isStable strict_semver_api = semver_stable"
  "sortVersions strict_semver_api = semver_compare"
  "getMajor strict_semver_api = semver_component 0"
  "getMinor strict_semver_api = semver_component 1"
  "throws strict_semver_api = strict_throws"
  by (simp_all add: strict_semver_api_def semver_api_def)

lemma conf_strict_config:
  "conf_offset (strict_config off level) = off"
  "conf_offsetLevel (strict_config off level) = level"
  "versioning (strict_config off level) = ''semver-strict''"
  "datasource (strict_config off level) = Some ''npm''"
  "packageName (strict_config off level) = Some ''pkg''"
  "conf_ignorePrerelease (strict_config off level)"
  by (simp_all add: strict_config_def mk_config_def conf_offset_def conf_offsetLevel_def
      conf_ignorePrerelease_def)

lemma semver_nums_bad: "semver_nums ''not-a-version'' = None"
  by (simp add: semver_nums_def)

lemma filter_pair_strict:
  "filterVersions strict_semver_api (strict_config off level) (map rel pair_versions) =
     Inr pair_versions"
  by (simp add: filterVersions_def conf_strict_config pair_versions_def rel_def strict_sel
      strict_throws_def semver_nums_s1 semver_stable_s1)

lemma sort_pair_strict:
  "sort_try (\<lambda>a b. throws strict_semver_api (SortVersions a b)) (sortVersions strict_semver_api)
     pair_versions = Some pair_versions"
  by (simp add: pair_versions_def strict_sel strict_throws_def semver_compare_def semver_nums_s1
      semver_stable_s1)

lemma groups_pair_strict:
  "groupVersionsBySemverLevel pair_versions strict_semver_api ''minor'' =
     Inr [(''1.0'', [''1.0.0'']), (''1.1'', [''1.1.0''])]"
  by (simp add: groupVersionsBySemverLevel_def pair_versions_def groupKey_def sort_group_def
      strict_sel strict_throws_def semver_nums_s1 semver_component_s1 semver_component1_s1
      show_num_small)

lemma keys_pair_strict:
  "sortedGroupKeys [(''1.0'', [''1.0.0'']), (''1.1'', [''1.1.0''])] strict_semver_api =
     Inr [''1.0'', ''1.1'']"
  by (simp add: sortedGroupKeys_def object_keys_def is_array_index_def is_digit_def
      group_latest_def strict_sel strict_throws_def semver_compare_def semver_nums_s1
      semver_stable_s1)

lemma pick_throws_strict:
  "getVersionFromSemverGroups [(''1.0'', [''1.0.0'']), (''1.1'', [''1.1.0''])] strict_semver_api off
     ''minor'' ''not-a-version'' = Inl SchemeError"
  by (simp add: getVersionFromSemverGroups_def keys_pair_strict filterGroupKeys_def strict_sel
      strict_throws_def semver_nums_bad)

lemma select_strict:
  "selectVersion strict_semver_api cv ''not-a-version'' (strict_config (Some (- 1)) (Some ''minor''))
     (map rel pair_versions) = Inl SchemeError"
proof -
  have ne: "length pair_versions \<noteq> 0" by (simp add: pair_versions_def)
  show ?thesis
    unfolding selectVersion_def filter_pair_strict conf_strict_config Let_def
    using ne by (simp add: sort_pair_strict truthy_str_def groups_pair_strict pick_throws_strict)
qed

lemma eval_strict:
  "fst (getNewValue known_versionings (const_registry pair_versions) ''1.1.0'' rs ''not-a-version''
         (strict_config (Some (- 1)) (Some ''minor'')) empty_world) = Inl SchemeError"
proof -
  let ?cfg = "strict_config (Some (- 1)) (Some ''minor'')"
  have g: "get known_versionings (Some (versioning ?cfg)) = Inr strict_semver_api"
    by (simp add: conf_strict_config get_strict)
  have o: "\<not> offset_invalid ?cfg" by (simp add: offset_invalid_def conf_strict_config)
  have l: "\<not> offsetLevel_invalid ?cfg"
    by (simp add: offsetLevel_invalid_def conf_strict_config truthy_str_def)
  have ob: "obtained_releases (const_registry pair_versions) ?cfg empty_world = map rel pair_versions"
    by (rule obtained_from_const) (simp_all add: conf_strict_config truthy_str_def)
  have ne: "map rel pair_versions \<noteq> []" by (simp add: pair_versions_def)
  show ?thesis
    unfolding getNewValue_select[OF g o l] ob
    using ne by (simp only: select_strict if_False)
qed

lemma releases_result_of: "releases_of (Some (result_of vs)) = map rel vs"
  by (simp add: releases_of_def result_of_def)

lemma select_flat_s1:
  "selectVersion semver_api cv cver (mk_config ds pkg (Some (- 1)) None) (map rel scenario1_versions) =
     Inr ''3.0.0''"
proof -
  have "selectVersion semver_api cv cver (mk_config ds pkg (Some (- 1)) None)
          (map rel scenario1_versions) = Inr (scenario1_versions ! 4)"
    unfolding selectVersion_total[OF scheme_returns_semver] selection_outcome_int[OF effective_minus_one]
      filter_s1 semver_api_sel sort_s1
    by (simp add: conf_mk_config truthy_str_def scenario1_nonempty)
  then show ?thesis by (simp add: scenario1_versions_def)
qed

section \<open>Facts about the retry loop\<close>






lemma not_retryable_unauthorized: "\<not> isRetryableError unauthorized_error"
  by (simp add: isRetryableError_def unauthorized_error_def truthy_str_def RETRYABLE_STATUS_CODES_def)




section \<open>Maximal members\<close>

lemma sorted_insort_cmp:
  assumes "consistent_comparator cmp" "sorted_wrt (\<lambda>a b. cmp a b \<le> 0) xs"
  shows "sorted_wrt (\<lambda>a b. cmp a b \<le> 0) (insort_cmp cmp x xs)"
  using assms(2)
proof (induction xs)
  case Nil
  then show ?case by simp
next
  case (Cons y ys)
  have tot: "\<And>a b. cmp a b \<le> 0 \<or> cmp b a \<le> 0"
    and tr: "\<And>a b c. cmp a b \<le> 0 \<Longrightarrow> cmp b c \<le> 0 \<Longrightarrow> cmp a c \<le> 0"
    using assms(1) unfolding consistent_comparator_def by blast+
  have ys: "sorted_wrt (\<lambda>a b. cmp a b \<le> 0) ys" and yall: "\<forall>z\<in>set ys. cmp y z \<le> 0"
    using Cons.prems by auto
  show ?case
  proof (cases "cmp x y \<le> 0")
    case True
    then have "\<forall>z\<in>set (y # ys). cmp x z \<le> 0" using yall tr by auto
    then show ?thesis using True Cons.prems by simp
  next
    case False
    then have yx: "cmp y x \<le> 0" using tot[of x y] by simp
    have "\<forall>z\<in>set (insort_cmp cmp x ys). cmp y z \<le> 0"
      using yx yall by (simp add: set_insort_cmp)
    then show ?thesis using False Cons.IH[OF ys] by simp
  qed
qed

lemma sorted_sort_cmp:
  assumes "consistent_comparator cmp"
  shows "sorted_wrt (\<lambda>a b. cmp a b \<le> 0) (sort_cmp cmp xs)"
proof (induction xs)
  case Nil
  then show ?case by (simp add: sort_cmp_def)
next
  case (Cons x xs)
  have "sort_cmp cmp (x # xs) = insort_cmp cmp x (sort_cmp cmp xs)" by (simp add: sort_cmp_def)
  then show ?case using sorted_insort_cmp[OF assms Cons.IH] by simp
qed

lemma sorted_last_maximal:
  assumes "consistent_comparator cmp" "sorted_wrt (\<lambda>a b. cmp a b \<le> 0) xs" "m \<in> set xs"
  shows "cmp m (last xs) \<le> 0"
proof -
  have refl: "cmp m m \<le> 0" using assms(1) unfolding consistent_comparator_def by blast
  from assms(3) have ne: "xs \<noteq> []" by auto
  then obtain ys z where xs: "xs = ys @ [z]" by (cases xs rule: rev_cases) auto
  show ?thesis
  proof (cases "m = z")
    case True
    then show ?thesis using xs refl by simp
  next
    case False
    then have "m \<in> set ys" using assms(3) xs by simp
    then show ?thesis using assms(2) xs by (simp add: sorted_wrt_append)
  qed
qed

text \<open>
  With a consistent comparator the last member of every group is a maximal
  member of it, and the sorted version list ends with a maximal version: so
  the member the grouped selection returns is its group's maximal member.
\<close>

lemma group_last_is_maximal:
  assumes "consistent_comparator (sortVersions api)"
    and "(k, ms) \<in> set (groups_of (sort_cmp (sortVersions api) vs) api level)"
    and "m \<in> set ms"
  shows "sortVersions api m (last ms) \<le> 0"
proof -
  let ?V = "sort_cmp (sortVersions api) vs"
  from assms(2) have "(k, ms) \<in> set (map (sort_group_of api) (group_loop_of api level ?V []))"
    by (auto simp: groups_of_def split: if_splits)
  then obtain e where e: "e \<in> set (group_loop_of api level ?V [])" and eq: "(k, ms) = sort_group_of api e"
    by auto
  show ?thesis
  proof (cases "length (snd e) > 1")
    case True
    then have "ms = sort_cmp (sortVersions api) (snd e)" using eq by (simp add: sort_group_of_def)
    then have "sorted_wrt (\<lambda>a b. sortVersions api a b \<le> 0) ms"
      using sorted_sort_cmp[OF assms(1)] by simp
    then show ?thesis using sorted_last_maximal[OF assms(1) _ assms(3)] by simp
  next
    case False
    then have "ms = snd e" using eq by (simp add: sort_group_of_def prod_eq_iff)
    then have "length ms \<le> 1" using False by simp
    then have "ms = [m]" using assms(3) by (cases ms) auto
    moreover have "sortVersions api m m \<le> 0"
      using assms(1) unfolding consistent_comparator_def by blast
    ultimately show ?thesis by simp
  qed
qed

lemma grouped_selection_is_maximal:
  assumes "consistent_comparator (sortVersions api)"
    and "grouped_selection api level off cver cv (sort_cmp (sortVersions api) vs) \<noteq> cv"
  shows "\<exists>k ms. (k, ms) \<in> set (groups_of (sort_cmp (sortVersions api) vs) api level) \<and>
           grouped_selection api level off cver cv (sort_cmp (sortVersions api) vs) = last ms \<and>
           (\<forall>m\<in>set ms. sortVersions api m (last ms) \<le> 0)"
proof -
  from grouped_selection_cases[of api level off cver cv "sort_cmp (sortVersions api) vs"] assms(2)
  obtain k ms where m: "(k, ms) \<in> set (groups_of (sort_cmp (sortVersions api) vs) api level)"
    and eq: "grouped_selection api level off cver cv (sort_cmp (sortVersions api) vs) = last ms"
    by blast
  have "\<forall>m\<in>set ms. sortVersions api m (last ms) \<le> 0"
    using group_last_is_maximal[OF assms(1) m] by blast
  with m eq show ?thesis by blast
qed

lemma keys_of_sorted:
  assumes "consistent_comparator (sortVersions api)"
  shows "sorted_wrt (\<lambda>a b. sortVersions api (group_latest g a) (group_latest g b) \<le> 0)
           (keys_of g api)"
proof -
  have "consistent_comparator (\<lambda>a b. sortVersions api (group_latest g a) (group_latest g b))"
    using assms unfolding consistent_comparator_def by blast
  from sorted_sort_cmp[OF this] show ?thesis by (simp add: keys_of_def)
qed



section \<open>The claims\<close>

text \<open>
  C1. \<open>getNewValue\<close> does not always return a string to its caller. Three
  resolutions with a registered scheme, a registry that answers and
  well-formed releases: with offset \<open>-1/2\<close> at level \<open>major\<close> the index
  into the group keys is \<open>3/2\<close>, the target group is \<^verbatim>\<open>undefined\<close> and
  reading its length is a \<^verbatim>\<open>TypeError\<close>; with offset \<open>-1/2\<close> and no level
  the index into the version list is \<open>9/2\<close> and the value returned is
  \<^verbatim>\<open>undefined\<close>; with a current version that is not a version and a scheme
  whose component readers throw on such a string, the read of the current
  version's major component at level \<open>minor\<close> throws.
\<close>

theorem getNewValue_raises:
  "get known_versionings (Some (versioning (mk_config ''npm'' ''pkg'' (Some (- 1 / 2)) (Some ''major'')))) =
     Inr semver_api \<and>
   fst (getNewValue known_versionings (const_registry scenario1_versions) ''3.1.0'' ''auto'' ''3.1.0''
         (mk_config ''npm'' ''pkg'' (Some (- 1 / 2)) (Some ''major'')) empty_world) = Inl TypeError \<and>
   fst (getNewValue known_versionings (const_registry scenario1_versions) ''3.1.0'' ''auto'' ''3.1.0''
         (mk_config ''npm'' ''pkg'' (Some (- 1 / 2)) None) empty_world) = Inl NotAString \<and>
   get known_versionings (Some (versioning (strict_config (Some (- 1)) (Some ''minor'')))) =
     Inr strict_semver_api \<and>
   fst (getNewValue known_versionings (const_registry pair_versions) ''1.1.0'' ''auto'' ''not-a-version''
         (strict_config (Some (- 1)) (Some ''minor'')) empty_world) = Inl SchemeError"
  using get_mk_config[of "''npm''" "''pkg''" "Some (- 1 / 2)" "Some ''major''"]
    eval_half_grouped[of "''auto''"] eval_half_flat[of "''auto''"] eval_strict[of "''auto''"]
  by (simp add: conf_strict_config get_strict)

text \<open>
  C3. With an offset greater than 0 the call leaves the world as it was: no
  call to the registry is logged and the cache is untouched. It returns the
  current value (for a versioning id that \<open>get\<close> resolves; otherwise the
  error of \<open>get\<close>, still without any fetch).
\<close>

theorem positive_offset_no_fetch:
  assumes "conf_offset cfg = Some off" and "0 < off"
  shows "snd (getNewValue versionings reg currentValue rangeStrategy currentVersion cfg w) = w \<and>
         calls (snd (getNewValue versionings reg currentValue rangeStrategy currentVersion cfg w)) = calls w \<and>
         fst (getNewValue versionings reg currentValue rangeStrategy currentVersion cfg w) =
           (case get versionings (Some (versioning cfg)) of Inl e \<Rightarrow> Inl e | Inr api \<Rightarrow> Inr currentValue)"
proof -
  have inv: "offset_invalid cfg" using assms by (simp add: offset_invalid_def)
  show ?thesis
  proof (cases "get versionings (Some (versioning cfg))")
    case (Inl e)
    then show ?thesis using getNewValue_unregistered[OF Inl] by simp
  next
    case (Inr api)
    then show ?thesis using getNewValue_offset_invalid[OF Inr inv] by simp
  qed
qed

theorem positive_offset_no_fetch_witness:
  "getNewValue known_versionings (const_registry scenario1_versions) ''2.0.0'' ''auto'' ''2.0.0''
     (mk_config ''npm'' ''pkg'' (Some 1) (Some ''major'')) empty_world = (Inr ''2.0.0'', empty_world)"
proof -
  have 1: "conf_offset (mk_config ''npm'' ''pkg'' (Some 1) (Some ''major'')) = Some 1"
    by (simp add: conf_mk_config)
  have 2: "(0::rat) < 1" by simp
  show ?thesis
    using positive_offset_no_fetch[OF 1 2, of known_versionings "const_registry scenario1_versions"
        "''2.0.0''" "''auto''" "''2.0.0''" empty_world]
    by (simp add: get_mk_config prod_eq_iff)
qed





text \<open>
  C10. A result other than the current value is the version of one of the
  releases the call obtained, and it passed the filter: it is a non-empty
  string that \<open>isValid\<close> accepts and, unless \<open>ignorePrerelease\<close> is
  \<open>false\<close>, that \<open>isStable\<close> accepts.
\<close>

theorem result_is_obtained_version:
  assumes "get versionings (Some (versioning cfg)) = Inr api"
    and "fst (getNewValue versionings reg currentValue rangeStrategy currentVersion cfg w) = Inr s"
    and "s \<noteq> currentValue"
  shows "(\<exists>r \<in> set (obtained_releases reg cfg w). version r = Some s) \<and> s \<noteq> [] \<and>
         isValid api s = Some True \<and> (conf_ignorePrerelease cfg \<longrightarrow> isStable api s)"
proof -
  have "s \<in> set (candidates api reg cfg w)"
    using assms by (rule getNewValue_in_candidates)
  then have "s \<in> set (filtered_of api cfg (obtained_releases reg cfg w))"
    by (simp add: candidates_def set_sort_cmp)
  from filtered_of_props[OF this] show ?thesis by (auto split: if_splits)
qed

theorem result_is_obtained_version_witness:
  "(\<exists>r \<in> set (obtained_releases (const_registry scenario1_versions)
                 (mk_config ''npm'' ''pkg'' (Some (- 1)) None) empty_world). version r = Some ''3.0.0'') \<and>
   isValid semver_api ''3.0.0'' = Some True \<and> isStable semver_api ''3.0.0''"
proof -
  let ?cfg = "mk_config ''npm'' ''pkg'' (Some (- 1)) None"
  have 1: "get known_versionings (Some (versioning ?cfg)) = Inr semver_api" by (rule get_mk_config)
  have 2: "fst (getNewValue known_versionings (const_registry scenario1_versions) ''3.1.0'' ''auto''
                  ''3.1.0'' ?cfg empty_world) = Inr ''3.0.0''"
    by (rule eval_flat_s1)
  have 3: "''3.0.0'' \<noteq> ''3.1.0''" by simp
  have 4: "conf_ignorePrerelease ?cfg" by (simp add: conf_ignorePrerelease_def mk_config_def)
  show ?thesis using result_is_obtained_version[OF 1 2 3] 4 by blast
qed



text \<open>
  C6. A grouped resolution at level \<open>minor\<close> can leave the major of the
  current version. The keys are strings; a component from \<open>10^21\<close> on is
  written in exponent form, and \<^verbatim>\<open>parseInt\<close> reads \<open>1e+21\<close> back as 1.
  For the versions \<open>1.0.0\<close>, \<open>10^21.0.0\<close> and \<open>10^21.1.0\<close>, the current
  version \<open>1.0.0\<close>, level \<open>minor\<close> and offset \<open>-1\<close>, the result is
  \<open>10^21.0.0\<close>: it is not the current value, and its major component is
  \<open>10^21\<close> while the major component of the current version is 1.
\<close>

theorem minor_selection_crosses_major:
  "fst (getNewValue known_versionings (const_registry huge_versions) ''1.0.0'' ''auto'' ''1.0.0''
         (mk_config ''npm'' ''pkg'' (Some (- 1)) (Some ''minor'')) empty_world) =
     Inr ''1000000000000000000000.0.0'' \<and>
   ''1000000000000000000000.0.0'' \<noteq> ''1.0.0'' \<and>
   getMajor semver_api ''1000000000000000000000.0.0'' = Some 1000000000000000000000 \<and>
   getMajor semver_api ''1.0.0'' = Some 1"
  using eval_huge[of "''auto''"]
  by (simp add: semver_api_sel semver_component_huge semver_component_s1)

text \<open>
  C4, as stated, fails: a fetch that succeeds with an empty release list is
  not stored (the cache has no entry afterwards), and the next call for the
  same key, at the same instant, calls the registry a second time.
\<close>

theorem empty_fetch_is_not_cached:
  "const_registry [] 0 (PkgArgs ''npm'' ''pkg'' ''semver'') = Inr (Some (result_of [])) \<and>
   cache (snd (getNewValue known_versionings (const_registry []) ''1.0.0'' ''auto'' ''1.0.0''
                 (mk_config ''npm'' ''pkg'' None None) empty_world))
     (cacheNamespace, cacheKey (Some ''npm'') (Some ''pkg'') ''semver'') = None \<and>
   calls (snd (getNewValue known_versionings (const_registry []) ''1.0.0'' ''auto'' ''1.0.0''
                 (mk_config ''npm'' ''pkg'' None None)
                 (snd (getNewValue known_versionings (const_registry []) ''1.0.0'' ''auto'' ''1.0.0''
                         (mk_config ''npm'' ''pkg'' None None) empty_world)))) =
     [PkgArgs ''npm'' ''pkg'' ''semver'', PkgArgs ''npm'' ''pkg'' ''semver'']"
proof -
  have e: "cache empty_world = (\<lambda>k. None)" by (simp add: empty_world_def)
  have c0: "calls empty_world = []" by (simp add: empty_world_def)
  let ?w1 = "empty_world\<lparr>calls := calls empty_world @ [PkgArgs ''npm'' ''pkg'' ''semver'']\<rparr>"
  have e1: "cache ?w1 = (\<lambda>k. None)" using e by simp
  show ?thesis
    unfolding call_empty_registry[OF e] snd_conv call_empty_registry[OF e1]
    by (simp add: const_registry_def e c0)
qed

text \<open>
  C4, amended. For a resolution that reaches the fetch (the scheme is
  registered and the offset and the level pass validation):

  \<^item> a fetch made with a datasource and a package name, on a cache miss, that
    returns a non-empty release list is stored under the key string with a
    time to live of 15 minutes from the call; a later call with the same
    arguments, in any world that still holds the entry and whose clock is
    within the time to live, returns what the first call returned and leaves
    the world as it is: the registry is not called, whatever it would answer;

  \<^item> such a fetch that returns \<^verbatim>\<open>null\<close>, or a result whose release list is
    absent or empty, stores nothing: the result is the current value and the
    world differs only by the logged call;

  \<^item> a call whose datasource or package name is missing or empty neither
    reads nor writes the cache: it calls the registry without arguments, and
    the world differs only by that logged call.
\<close>

theorem fetch_cache_policy:
  assumes "get versionings (Some (versioning cfg)) = Inr api"
    and "\<not> offset_invalid cfg" and "\<not> offsetLevel_invalid cfg"
  shows "(truthy_str (datasource cfg) \<and> truthy_str (packageName cfg) \<and>
          memCache_get w cacheNamespace
            (cacheKey (datasource cfg) (packageName cfg) (versioning cfg)) = None \<and>
          reg (length (calls w))
            (PkgArgs (show_str (datasource cfg)) (show_str (packageName cfg)) (versioning cfg)) =
            Inr (Some r) \<and>
          releases_of (Some r) \<noteq> [] \<longrightarrow>
            cache (snd (getNewValue versionings reg currentValue rangeStrategy currentVersion cfg w))
              (cacheNamespace, cacheKey (datasource cfg) (packageName cfg) (versioning cfg)) =
              Some (r, now w + 15 * 60000) \<and>
            calls (snd (getNewValue versionings reg currentValue rangeStrategy currentVersion cfg w)) =
              calls w @
              [PkgArgs (show_str (datasource cfg)) (show_str (packageName cfg)) (versioning cfg)] \<and>
            (cache w_later
               (cacheNamespace, cacheKey (datasource cfg) (packageName cfg) (versioning cfg)) =
             cache (snd (getNewValue versionings reg currentValue rangeStrategy currentVersion cfg w))
               (cacheNamespace, cacheKey (datasource cfg) (packageName cfg) (versioning cfg)) \<and>
             now w_later < now w + 15 * 60000 \<longrightarrow>
               getNewValue versionings reg_later currentValue rangeStrategy currentVersion cfg w_later =
                 (fst (getNewValue versionings reg currentValue rangeStrategy currentVersion cfg w),
                  w_later))) \<and>
         (truthy_str (datasource cfg) \<and> truthy_str (packageName cfg) \<and>
          memCache_get w cacheNamespace
            (cacheKey (datasource cfg) (packageName cfg) (versioning cfg)) = None \<and>
          reg (length (calls w))
            (PkgArgs (show_str (datasource cfg)) (show_str (packageName cfg)) (versioning cfg)) =
            Inr versions \<and>
          releases_of versions = [] \<longrightarrow>
            getNewValue versionings reg currentValue rangeStrategy currentVersion cfg w =
              (Inr currentValue,
               w\<lparr>calls := calls w @
                 [PkgArgs (show_str (datasource cfg)) (show_str (packageName cfg)) (versioning cfg)]\<rparr>)) \<and>
         (\<not> truthy_str (datasource cfg) \<or> \<not> truthy_str (packageName cfg) \<longrightarrow>
            snd (getNewValue versionings reg currentValue rangeStrategy currentVersion cfg w) =
              w\<lparr>calls := calls w @ [NoArgs]\<rparr>)"
proof (intro conjI impI)
  let ?key = "cacheKey (datasource cfg) (packageName cfg) (versioning cfg)"
  let ?args = "PkgArgs (show_str (datasource cfg)) (show_str (packageName cfg)) (versioning cfg)"
  {
    assume h: "truthy_str (datasource cfg) \<and> truthy_str (packageName cfg) \<and>
          memCache_get w cacheNamespace ?key = None \<and>
          reg (length (calls w)) ?args = Inr (Some r) \<and> releases_of (Some r) \<noteq> []"
    then have d: "truthy_str (datasource cfg)" and p: "truthy_str (packageName cfg)"
      and m: "memCache_get w cacheNamespace ?key = None"
      and a: "reg (length (calls w)) ?args = Inr (Some r)"
      and ne: "releases_of (Some r) \<noteq> []" by auto
    let ?w1 = "memCache_set (w\<lparr>calls := calls w @ [?args]\<rparr>) cacheNamespace ?key r 15"
    have f1: "fetchVersions reg cfg w = (Inr (Some r), ?w1)"
      using fetch_miss[where reg = reg, OF d p m a] ne by simp
    have first: "getNewValue versionings reg currentValue rangeStrategy currentVersion cfg w =
        (selectVersion api currentValue currentVersion cfg (releases_of (Some r)), ?w1)"
      using getNewValue_fetch[OF assms(1) assms(2) assms(3) f1] ne by simp
    have c1: "cache ?w1 (cacheNamespace, ?key) = Some (r, now w + 15 * 60000)"
      by (simp add: memCache_set_def)
    have k1: "calls ?w1 = calls w @ [?args]" by (simp add: memCache_set_def)
    show "cache (snd (getNewValue versionings reg currentValue rangeStrategy currentVersion cfg w))
            (cacheNamespace, ?key) = Some (r, now w + 15 * 60000)"
      unfolding first snd_conv by (rule c1)
    show "calls (snd (getNewValue versionings reg currentValue rangeStrategy currentVersion cfg w)) =
            calls w @ [?args]"
      unfolding first snd_conv by (rule k1)
    {
      assume later: "cache w_later (cacheNamespace, ?key) =
             cache (snd (getNewValue versionings reg currentValue rangeStrategy currentVersion cfg w))
               (cacheNamespace, ?key) \<and>
             now w_later < now w + 15 * 60000"
      then have "cache w_later (cacheNamespace, ?key) = Some (r, now w + 15 * 60000)"
        unfolding first snd_conv c1 by simp
      then have hit: "memCache_get w_later cacheNamespace ?key = Some r"
        using later by (simp add: memCache_get_fresh)
      have f2: "fetchVersions reg_later cfg w_later = (Inr (Some r), w_later)"
        by (rule fetch_hit[OF d p hit])
      have second: "getNewValue versionings reg_later currentValue rangeStrategy currentVersion cfg
                      w_later =
          (selectVersion api currentValue currentVersion cfg (releases_of (Some r)), w_later)"
        using getNewValue_fetch[OF assms(1) assms(2) assms(3) f2] ne by simp
      show "getNewValue versionings reg_later currentValue rangeStrategy currentVersion cfg w_later =
              (fst (getNewValue versionings reg currentValue rangeStrategy currentVersion cfg w),
               w_later)"
        unfolding first second fst_conv ..
    }
  }
  {
    assume h: "truthy_str (datasource cfg) \<and> truthy_str (packageName cfg) \<and>
          memCache_get w cacheNamespace ?key = None \<and>
          reg (length (calls w)) ?args = Inr versions \<and> releases_of versions = []"
    then have f: "fetchVersions reg cfg w = (Inr versions, w\<lparr>calls := calls w @ [?args]\<rparr>)"
      using fetch_miss_empty[where reg = reg and cfg = cfg and w = w and versions = versions] by simp
    show "getNewValue versionings reg currentValue rangeStrategy currentVersion cfg w =
            (Inr currentValue, w\<lparr>calls := calls w @ [?args]\<rparr>)"
      using getNewValue_fetch[OF assms(1) assms(2) assms(3) f] h by simp
  }
  {
    assume "\<not> truthy_str (datasource cfg) \<or> \<not> truthy_str (packageName cfg)"
    then show "snd (getNewValue versionings reg currentValue rangeStrategy currentVersion cfg w) =
                 w\<lparr>calls := calls w @ [NoArgs]\<rparr>"
      by (rule getNewValue_no_package[OF assms(1) assms(2) assms(3)])
  }
qed

theorem fetch_cache_policy_witness:
  "getNewValue known_versionings (const_registry []) ''3.1.0'' ''auto'' ''3.1.0''
     (mk_config ''npm'' ''pkg'' (Some (- 1)) None)
     ((snd (getNewValue known_versionings (const_registry scenario1_versions) ''3.1.0'' ''auto'' ''3.1.0''
              (mk_config ''npm'' ''pkg'' (Some (- 1)) None) empty_world))\<lparr>now := 899999\<rparr>) =
   (Inr ''3.0.0'',
    (snd (getNewValue known_versionings (const_registry scenario1_versions) ''3.1.0'' ''auto'' ''3.1.0''
              (mk_config ''npm'' ''pkg'' (Some (- 1)) None) empty_world))\<lparr>now := 899999\<rparr>) \<and>
   getNewValue known_versionings (\<lambda>n a. Inr None) ''3.1.0'' ''auto'' ''3.1.0''
     (mk_config ''npm'' ''pkg'' (Some (- 1)) None) empty_world =
   (Inr ''3.1.0'', empty_world\<lparr>calls := [PkgArgs ''npm'' ''pkg'' ''semver'']\<rparr>) \<and>
   snd (getNewValue known_versionings (const_registry scenario1_versions) ''3.1.0'' ''auto'' ''3.1.0''
          (mk_config ''npm'' [] (Some (- 1)) None) empty_world) =
   empty_world\<lparr>calls := [NoArgs]\<rparr>"
proof -
  let ?cfg = "mk_config ''npm'' ''pkg'' (Some (- 1)) None"
  let ?bare = "mk_config ''npm'' [] (Some (- 1)) None"
  let ?w1 = "snd (getNewValue known_versionings (const_registry scenario1_versions) ''3.1.0'' ''auto''
                   ''3.1.0'' ?cfg empty_world)"
  let ?key = "cacheKey (datasource ?cfg) (packageName ?cfg) (versioning ?cfg)"
  let ?args = "PkgArgs (show_str (datasource ?cfg)) (show_str (packageName ?cfg)) (versioning ?cfg)"
  have 1: "get known_versionings (Some (versioning ?cfg)) = Inr semver_api" by (rule get_mk_config)
  have 2: "\<not> offset_invalid ?cfg" by (rule valid_mk_config) simp
  have 3: "\<not> offsetLevel_invalid ?cfg" by (rule valid_mk_config)
  have 4: "truthy_str (datasource ?cfg)" by (rule truthy_mk_config) simp
  have 5: "truthy_str (packageName ?cfg)" by (rule truthy_mk_config) simp
  have 6: "memCache_get empty_world cacheNamespace ?key = None" by (rule memCache_get_empty)
  have 7: "const_registry scenario1_versions (length (calls empty_world)) ?args =
           Inr (Some (result_of scenario1_versions))"
    by (simp add: const_registry_def)
  have 8: "releases_of (Some (result_of scenario1_versions)) \<noteq> []"
    by (simp add: releases_of_def result_of_def scenario1_versions_def)
  have 9: "cache (?w1\<lparr>now := 899999\<rparr>) (cacheNamespace, ?key) = cache ?w1 (cacheNamespace, ?key)"
    by simp
  have 10: "now (?w1\<lparr>now := 899999\<rparr>) < now empty_world + 15 * 60000"
    by (simp add: empty_world_def)
  have a: "getNewValue known_versionings (const_registry []) ''3.1.0'' ''auto'' ''3.1.0'' ?cfg
             (?w1\<lparr>now := 899999\<rparr>) =
           (fst (getNewValue known_versionings (const_registry scenario1_versions) ''3.1.0'' ''auto''
                   ''3.1.0'' ?cfg empty_world), ?w1\<lparr>now := 899999\<rparr>)"
    using fetch_cache_policy[where reg = "const_registry scenario1_versions"
        and reg_later = "const_registry []" and w = empty_world and w_later = "?w1\<lparr>now := 899999\<rparr>"
        and r = "result_of scenario1_versions" and currentValue = "''3.1.0''"
        and rangeStrategy = "''auto''" and currentVersion = "''3.1.0''", OF 1 2 3]
      4 5 6 7 8 9 10
    by blast
  have n8: "releases_of None = []" by (simp add: releases_of_def)
  have b: "getNewValue known_versionings (\<lambda>n a. Inr None) ''3.1.0'' ''auto'' ''3.1.0'' ?cfg empty_world =
           (Inr ''3.1.0'', empty_world\<lparr>calls := calls empty_world @ [?args]\<rparr>)"
    using fetch_cache_policy[where reg = "\<lambda>n a. Inr None" and w = empty_world and versions = None
        and currentValue = "''3.1.0''" and rangeStrategy = "''auto''" and currentVersion = "''3.1.0''",
        OF 1 2 3, THEN conjunct2, THEN conjunct1]
      4 5 6 n8
    by simp
  have b1: "get known_versionings (Some (versioning ?bare)) = Inr semver_api" by (rule get_mk_config)
  have b2: "\<not> offset_invalid ?bare" by (rule valid_mk_config) simp
  have b3: "\<not> offsetLevel_invalid ?bare" by (rule valid_mk_config)
  have b4: "\<not> truthy_str (datasource ?bare) \<or> \<not> truthy_str (packageName ?bare)"
    by (simp add: conf_mk_config truthy_str_def)
  have c: "snd (getNewValue known_versionings (const_registry scenario1_versions) ''3.1.0'' ''auto''
                  ''3.1.0'' ?bare empty_world) = empty_world\<lparr>calls := calls empty_world @ [NoArgs]\<rparr>"
    using fetch_cache_policy[where reg = "const_registry scenario1_versions" and w = empty_world
        and currentValue = "''3.1.0''" and rangeStrategy = "''auto''" and currentVersion = "''3.1.0''",
        OF b1 b2 b3, THEN conjunct2, THEN conjunct2]
      b4
    by blast
  have c0: "calls empty_world = []" by (simp add: empty_world_def)
  show ?thesis
    using a b c unfolding eval_flat_s1 c0 by (simp add: conf_mk_config show_str_def)
qed

text \<open>
  C9. The cache key is not injective: datasource \<open>a\<close> with package \<open>b-c\<close>
  and datasource \<open>a-b\<close> with package \<open>c\<close> have the same key for every
  versioning id. So after a resolution of the first package has stored its
  release list, a resolution of the second one within the time to live takes
  its version from that list and never asks the registry.
\<close>

theorem cacheKey_collision:
  "(Some ''a'', Some ''b-c'') \<noteq> (Some ''a-b'', Some ''c'') \<and>
   cacheKey (Some ''a'') (Some ''b-c'') v = cacheKey (Some ''a-b'') (Some ''c'') v \<and>
   getNewValue known_versionings (const_registry []) ''0.0.1'' ''auto'' ''0.0.1''
     (mk_config ''a-b'' ''c'' (Some (- 1)) None)
     (snd (getNewValue known_versionings (const_registry scenario1_versions) ''3.1.0'' ''auto'' ''3.1.0''
              (mk_config ''a'' ''b-c'' (Some (- 1)) None) empty_world)) =
   (Inr ''3.0.0'',
    snd (getNewValue known_versionings (const_registry scenario1_versions) ''3.1.0'' ''auto'' ''3.1.0''
              (mk_config ''a'' ''b-c'' (Some (- 1)) None) empty_world))"
proof -
  let ?cfg1 = "mk_config ''a'' ''b-c'' (Some (- 1)) None"
  let ?cfg2 = "mk_config ''a-b'' ''c'' (Some (- 1)) None"
  let ?r = "result_of scenario1_versions"
  let ?key = "cacheKey (Some ''a'') (Some ''b-c'') ''semver''"
  let ?args = "PkgArgs ''a'' ''b-c'' ''semver''"
  let ?w1 = "memCache_set (empty_world\<lparr>calls := calls empty_world @ [?args]\<rparr>) cacheNamespace ?key ?r 15"
  have keys: "cacheKey (Some ''a'') (Some ''b-c'') v = cacheKey (Some ''a-b'') (Some ''c'') v" for v
    by (simp add: cacheKey_def show_str_def)
  have ne: "releases_of (Some ?r) \<noteq> []"
    by (simp add: releases_of_def result_of_def scenario1_versions_def)
  have o1: "\<not> offset_invalid ?cfg1" by (rule valid_mk_config) simp
  have o2: "\<not> offset_invalid ?cfg2" by (rule valid_mk_config) simp
  have d1: "truthy_str (datasource ?cfg1)" by (rule truthy_mk_config) simp
  have p1: "truthy_str (packageName ?cfg1)" by (rule truthy_mk_config) simp
  have d2: "truthy_str (datasource ?cfg2)" by (rule truthy_mk_config) simp
  have p2: "truthy_str (packageName ?cfg2)" by (rule truthy_mk_config) simp
  have m1: "memCache_get empty_world cacheNamespace
              (cacheKey (datasource ?cfg1) (packageName ?cfg1) (versioning ?cfg1)) = None"
    by (rule memCache_get_empty)
  have r1: "const_registry scenario1_versions (length (calls empty_world))
             (PkgArgs (show_str (datasource ?cfg1)) (show_str (packageName ?cfg1)) (versioning ?cfg1)) =
           Inr (Some ?r)"
    by (simp add: const_registry_def)
  have f1: "fetchVersions (const_registry scenario1_versions) ?cfg1 empty_world = (Inr (Some ?r), ?w1)"
    using fetch_miss[where reg = "const_registry scenario1_versions", OF d1 p1 m1 r1] ne
    by (simp add: conf_mk_config show_str_def)
  have first: "snd (getNewValue known_versionings (const_registry scenario1_versions) ''3.1.0'' ''auto''
                     ''3.1.0'' ?cfg1 empty_world) = ?w1"
    using getNewValue_fetch[OF get_mk_config o1 valid_mk_config(2) f1] by simp
  have hit: "memCache_get ?w1 cacheNamespace
               (cacheKey (datasource ?cfg2) (packageName ?cfg2) (versioning ?cfg2)) = Some ?r"
    by (simp add: memCache_get_def memCache_set_def conf_mk_config keys[symmetric] empty_world_def)
  have f2: "fetchVersions (const_registry []) ?cfg2 ?w1 = (Inr (Some ?r), ?w1)"
    by (rule fetch_hit[OF d2 p2 hit])
  have sel: "selectVersion semver_api ''0.0.1'' ''0.0.1'' ?cfg2 (releases_of (Some ?r)) =
                    Inr ''3.0.0''"
    unfolding releases_result_of by (rule select_flat_s1)
  have second: "getNewValue known_versionings (const_registry []) ''0.0.1'' ''auto'' ''0.0.1'' ?cfg2 ?w1 =
                  (Inr ''3.0.0'', ?w1)"
    using getNewValue_fetch[OF get_mk_config o2 valid_mk_config(2) f2] ne sel by simp
  show ?thesis unfolding first using keys second by simp
qed




end
